theory Spec2Isabelle
  imports Complex_Main "HOL-Library.Word" "HOL-Library.Multiset"
begin

section \<open>The occupancy grid builder of the simple sensor simulator\<close>

text \<open>
  A shallow embedding of \<^verbatim>\<open>occupancy_grid_builder.cpp\<close>
  (class \<^verbatim>\<open>OccupancyGridBuilder\<close>) and the properties its specification states.

  Conventions of the embedding:
  \<^item> \<^verbatim>\<open>double\<close> is read as \<open>real\<close>: rounding, infinities, NaN and signed zeros
    are not modelled. \<^verbatim>\<open>std::atan2\<close> is the real two-argument arctangent.
  \<^item> \<^verbatim>\<open>size_t\<close> is \<open>nat\<close>; the grid dimensions are far below \<open>2 ^ 64\<close>, since
    vectors of \<open>height * width\<close> elements are allocated.
  \<^item> \<^verbatim>\<open>int32_t\<close> values (the cells of a grid traversal, the row scratch
    buffers) are \<open>int\<close>. The conversion \<^verbatim>\<open>int32_t(height)\<close> of a size is written out
    with its wrap-around, and so is the sum \<^verbatim>\<open>col + 1\<close> of \<open>addPolygon\<close>, which
    overflows for the column \<open>2 ^ 31 - 1\<close>.
  \<^item> The element type of the two marker grids and the type of the primitive counter
    are declared in the class header. The marker grids hold signed counts, read as
    \<open>int\<close>; the counter is a machine word of any width, and its largest value
    \<^verbatim>\<open>count_max\<close> is a parameter of \<open>add\<close>.
  \<^item> Member names are written without the trailing underscore of the source
    (\<^verbatim>\<open>origin_\<close> is \<open>origin\<close>), and \<^verbatim>\<open>values_\<close> is \<open>grid_values\<close>.
  \<^item> \<^verbatim>\<open>GridTraversal\<close> is declared in another header; the sequence of
    \<open>(col, row)\<close> cells it yields for a segment is a parameter \<open>trav\<close>.
  \<^item> A primitive is read only through \<^verbatim>\<open>get2DConvexHull()\<close>; it is represented
    by the list of points that call returns.
\<close>

subsection \<open>Data\<close>

record point =
  p_x :: real
  p_y :: real
  p_z :: real

record quaternion =
  q_x :: real
  q_y :: real
  q_z :: real
  q_w :: real

record pose =
  position :: point
  orientation :: quaternion

type_synonym polygon = "point list"

type_synonym primitive = "point list"

type_synonym traversal = "real \<Rightarrow> real \<Rightarrow> real \<Rightarrow> real \<Rightarrow> (int \<times> int) list"

record 'c builder =
  resolution :: real
  height :: nat
  width :: nat
  occupied_cost :: "8 word"
  invisible_cost :: "8 word"
  origin :: pose
  primitive_count :: 'c
  occupied_grid :: "int list"
  invisible_grid :: "int list"
  grid_values :: "8 word list"
  mincols :: "int list"
  maxcols :: "int list"

datatype fault =
  CapacityError
    \<comment> \<open>\<^verbatim>\<open>std::runtime_error("Grid cannot hold more than ... primitives")\<close>\<close>
  | EmptyPolygon
    \<comment> \<open>\<^verbatim>\<open>std::minmax_element\<close> on an empty range returns the end iterator, which
        \<^verbatim>\<open>makeInvisibleArea\<close> dereferences\<close>

definition Point :: "real \<Rightarrow> real \<Rightarrow> point" where
  \<comment> \<open>\<^verbatim>\<open>Point(double x, double y, double z = 0)\<close>\<close>
  "Point x y = \<lparr>p_x = x, p_y = y, p_z = 0\<rparr>"

definition int32_t :: "nat \<Rightarrow> int" where
  \<comment> \<open>the conversion \<^verbatim>\<open>int32_t(n)\<close> of a \<^verbatim>\<open>size_t\<close>\<close>
  "int32_t n = sint (word_of_nat n :: 32 word)"

definition OccupancyGridBuilder ::
  "real \<Rightarrow> nat \<Rightarrow> nat \<Rightarrow> 8 word \<Rightarrow> 8 word \<Rightarrow> ('n::len) word builder" where
  \<comment> \<open>the constructor; vectors are value-initialised, pose and counter start at zero\<close>
  "OccupancyGridBuilder res h w oc ic =
     \<lparr>resolution = res, height = h, width = w,
      occupied_cost = oc, invisible_cost = ic,
      origin = \<lparr>position = \<lparr>p_x = 0, p_y = 0, p_z = 0\<rparr>,
                 orientation = \<lparr>q_x = 0, q_y = 0, q_z = 0, q_w = 1\<rparr>\<rparr>,
      primitive_count = 0,
      occupied_grid = replicate (h * w) 0,
      invisible_grid = replicate (h * w) 0,
      grid_values = replicate (h * w) 0,
      mincols = replicate h 0,
      maxcols = replicate h 0\<rparr>"

subsection \<open>Coordinate transformer\<close>

definition atan2 :: "real \<Rightarrow> real \<Rightarrow> real" where
  \<comment> \<open>\<^verbatim>\<open>std::atan2(y, x)\<close> on the reals, with values in \<open>(-\<pi>, \<pi>]\<close>\<close>
  "atan2 y x =
     (if 0 < x then arctan (y / x)
      else if x < 0 then (if 0 \<le> y then arctan (y / x) + pi else arctan (y / x) - pi)
      else if 0 < y then pi / 2
      else if y < 0 then - (pi / 2)
      else 0)"

definition theta :: "point \<Rightarrow> real" where
  "theta p = atan2 (p_y p) (p_x p)"

definition conjugate :: "quaternion \<Rightarrow> quaternion" where
  \<comment> \<open>\<^verbatim>\<open>Eigen::Quaterniond::conjugate()\<close>\<close>
  "conjugate q = \<lparr>q_x = - q_x q, q_y = - q_y q, q_z = - q_z q, q_w = q_w q\<rparr>"

definition cross :: "point \<Rightarrow> point \<Rightarrow> point" where
  "cross a b =
     \<lparr>p_x = p_y a * p_z b - p_z a * p_y b,
      p_y = p_z a * p_x b - p_x a * p_z b,
      p_z = p_x a * p_y b - p_y a * p_x b\<rparr>"

definition vec :: "quaternion \<Rightarrow> point" where
  "vec q = \<lparr>p_x = q_x q, p_y = q_y q, p_z = q_z q\<rparr>"

definition quat_times_vec :: "quaternion \<Rightarrow> point \<Rightarrow> point" where
  \<comment> \<open>\<^verbatim>\<open>Quaterniond * Vector3d\<close>, as Eigen computes it:
      \<^verbatim>\<open>uv = vec().cross(v); uv += uv; return v + w() * uv + vec().cross(uv);\<close>\<close>
  "quat_times_vec q v =
     (let uv0 = cross (vec q) v;
          uv = \<lparr>p_x = p_x uv0 + p_x uv0, p_y = p_y uv0 + p_y uv0, p_z = p_z uv0 + p_z uv0\<rparr>;
          c = cross (vec q) uv
      in \<lparr>p_x = p_x v + q_w q * p_x uv + p_x c,
          p_y = p_y v + q_w q * p_y uv + p_y c,
          p_z = p_z v + q_w q * p_z uv + p_z c\<rparr>)"

definition vec_minus :: "point \<Rightarrow> point \<Rightarrow> point" where
  "vec_minus a b = \<lparr>p_x = p_x a - p_x b, p_y = p_y a - p_y b, p_z = p_z a - p_z b\<rparr>"

definition transformToGrid :: "'c builder \<Rightarrow> point \<Rightarrow> point" where
  "transformToGrid b p =
     (let r = orientation (origin b);
          ov = position (origin b);
          np = vec_minus (quat_times_vec (conjugate r) p) ov
      in \<lparr>p_x = p_x np, p_y = p_y np, p_z = p_z np\<rparr>)"

definition transformToPixel :: "'c builder \<Rightarrow> point \<Rightarrow> point" where
  "transformToPixel b p =
     Point ((p_x p + real (width b) * resolution b / 2) / resolution b)
           ((p_y p + real (height b) * resolution b / 2) / resolution b)"

definition makeOccupiedArea :: "'c builder \<Rightarrow> primitive \<Rightarrow> polygon" where
  "makeOccupiedArea b prim = map (transformToGrid b) prim"

text \<open>
  The rotation of a vector by a quaternion as the specification words it: the vector
  part of \<open>q v q\<^sup>*\<close> in the Hamilton product. It is compared below with what
  \<^verbatim>\<open>Quaterniond * Vector3d\<close> computes.
\<close>

definition hamilton :: "quaternion \<Rightarrow> quaternion \<Rightarrow> quaternion" where
  "hamilton a b =
     \<lparr>q_x = q_w a * q_x b + q_x a * q_w b + q_y a * q_z b - q_z a * q_y b,
      q_y = q_w a * q_y b - q_x a * q_z b + q_y a * q_w b + q_z a * q_x b,
      q_z = q_w a * q_z b + q_x a * q_y b - q_y a * q_x b + q_z a * q_w b,
      q_w = q_w a * q_w b - q_x a * q_x b - q_y a * q_y b - q_z a * q_z b\<rparr>"

definition pure_quaternion :: "point \<Rightarrow> quaternion" where
  "pure_quaternion v = \<lparr>q_x = p_x v, q_y = p_y v, q_z = p_z v, q_w = 0\<rparr>"

definition rotated_by :: "quaternion \<Rightarrow> point \<Rightarrow> point" where
  "rotated_by q v = vec (hamilton (hamilton q (pure_quaternion v)) (conjugate q))"

definition unit_quaternion :: "quaternion \<Rightarrow> bool" where
  "unit_quaternion q \<longleftrightarrow> q_w q * q_w q + q_x q * q_x q + q_y q * q_y q + q_z q * q_z q = 1"

subsection \<open>Grid compositor: reset\<close>

definition reset :: "pose \<Rightarrow> ('n::len) word builder \<Rightarrow> 'n word builder" where
  "reset new_origin b =
     b\<lparr>origin := new_origin,
       primitive_count := 0,
       invisible_grid := replicate (length (invisible_grid b)) 0,
       occupied_grid := replicate (length (occupied_grid b)) 0\<rparr>"

definition get :: "'c builder \<Rightarrow> 8 word list" where
  "get b = grid_values b"

subsection \<open>Grid compositor: build\<close>

definition accumulate :: "int list \<Rightarrow> nat \<Rightarrow> int list" where
  \<comment> \<open>\<^verbatim>\<open>grid[k + 1] += grid[k]\<close>\<close>
  "accumulate g k = g[k + 1 := g ! (k + 1) + g ! k]"

definition prefix_row :: "nat \<Rightarrow> int list \<Rightarrow> nat \<Rightarrow> int list" where
  \<comment> \<open>\<^verbatim>\<open>for (size_t col = 0; col + 1 < width; ++col)\<close>\<close>
  "prefix_row w g row = fold (\<lambda>col g. accumulate g (row * w + col)) [0..<w - 1] g"

definition prefix_rows :: "nat \<Rightarrow> nat \<Rightarrow> int list \<Rightarrow> int list" where
  \<comment> \<open>\<^verbatim>\<open>for (size_t row = 0; row < height; ++row)\<close>\<close>
  "prefix_rows h w g = fold (\<lambda>row g. prefix_row w g row) [0..<h] g"

definition build :: "'c builder \<Rightarrow> 'c builder" where
  "build b =
     (let inv = prefix_rows (height b) (width b) (invisible_grid b);
          occ = prefix_rows (height b) (width b) (occupied_grid b);
          vals = fold (\<lambda>i v. v[i := (if occ ! i \<noteq> 0 then occupied_cost b
                                      else if inv ! i \<noteq> 0 then invisible_cost b
                                      else 0)])
                   [0..<height b * width b] (grid_values b)
      in b\<lparr>invisible_grid := inv, occupied_grid := occ, grid_values := vals\<rparr>)"

definition coverage :: "nat \<Rightarrow> int list \<Rightarrow> nat \<Rightarrow> int" where
  \<comment> \<open>the coverage count of cell \<open>i\<close>: the running sum of the difference array \<open>g\<close>
      from the start of the row of \<open>i\<close> up to \<open>i\<close>\<close>
  "coverage w g i = (\<Sum>c \<le> i mod w. g ! (i div w * w + c))"

definition well_formed :: "'c builder \<Rightarrow> bool" where
  \<comment> \<open>what the constructor establishes and no member function changes: the sizes of
      the five vectors\<close>
  "well_formed b \<longleftrightarrow>
     length (occupied_grid b) = height b * width b
     \<and> length (invisible_grid b) = height b * width b
     \<and> length (grid_values b) = height b * width b
     \<and> length (mincols b) = height b
     \<and> length (maxcols b) = height b"

subsection \<open>Rasterizer\<close>

text \<open>
  The vectors are accessed with \<^verbatim>\<open>operator[]\<close>, which does not check its index. In the
  embedding every access is checked, and \<open>None\<close> stands for a run that reads or writes
  outside a vector, or writes a marker-grid element that is not \<open>width * row + col\<close> of
  a cell with \<open>row < height\<close> and \<open>col < width\<close>: such a run has no defined result.
  The sum \<^verbatim>\<open>col + 1\<close> of the closing test is computed on \<^verbatim>\<open>int32_t\<close>: it is the 32-bit
  two's complement sum, which wraps around at \<open>2 ^ 31 - 1\<close>. The index
  \<^verbatim>\<open>width * row + col + 1\<close> is computed on sizes and does not wrap.
\<close>

definition int32 :: "int \<Rightarrow> int" where
  \<comment> \<open>the \<^verbatim>\<open>int32_t\<close> that a computation with the mathematical result \<open>x\<close> yields\<close>
  "int32 x = sint (word_of_int x :: 32 word)"

definition record_cell ::
  "nat \<Rightarrow> int \<times> int \<Rightarrow> int list \<times> int list \<Rightarrow> (int list \<times> int list) option" where
  \<comment> \<open>the body of the traversal loop, on the pair \<open>(mincols_, maxcols_)\<close>\<close>
  "record_cell h cell buf =
     (case cell of (col, row) \<Rightarrow> case buf of (mins, maxs) \<Rightarrow>
        if row \<ge> 0 \<and> row < int32_t h
        then (if nat row < h \<and> nat row < length mins \<and> nat row < length maxs
              then Some (mins[nat row := min (mins ! nat row) col],
                         maxs[nat row := max (maxs ! nat row) col])
              else None)
        else Some (mins, maxs))"

definition edge_cells :: "traversal \<Rightarrow> 'c builder \<Rightarrow> polygon \<Rightarrow> (int \<times> int) list" where
  \<comment> \<open>the cells the two nested loops visit, in order: for every edge \<open>i\<close>, from vertex
      \<open>i\<close> to vertex \<open>(i + 1) % size\<close>, the cells of its traversal\<close>
  "edge_cells trav b convex_hull =
     concat (map (\<lambda>i. let p = transformToPixel b (convex_hull ! i);
                          q = transformToPixel b (convex_hull ! ((i + 1) mod length convex_hull))
                      in trav (p_x p) (p_y p) (p_x q) (p_y q))
                 [0..<length convex_hull])"

definition scan_edges ::
  "traversal \<Rightarrow> 'c builder \<Rightarrow> polygon \<Rightarrow> (int list \<times> int list) option" where
  \<comment> \<open>the two \<^verbatim>\<open>assign\<close> calls and the loop over the edges\<close>
  "scan_edges trav b convex_hull =
     fold (\<lambda>cell acc. Option.bind acc (record_cell (height b) cell))
       (edge_cells trav b convex_hull)
       (Some (replicate (length (mincols b)) (int32_t (width b)),
              replicate (length (maxcols b)) (- 1)))"

definition open_span ::
  "nat \<Rightarrow> nat \<Rightarrow> int list \<Rightarrow> nat \<Rightarrow> int list \<Rightarrow> int list option" where
  \<comment> \<open>\<^verbatim>\<open>if (auto col = mincols_[row]; col >= 0 && col < int32_t(width))\<close>
      \<^verbatim>\<open>grid[width * row + col] += 1;\<close>\<close>
  "open_span h w mins row grid =
     (if row < length mins
      then (let col = mins ! row in
            if col \<ge> 0 \<and> col < int32_t w
            then (if row < h \<and> nat col < w \<and> w * row + nat col < length grid
                  then Some (grid[w * row + nat col := grid ! (w * row + nat col) + 1])
                  else None)
            else Some grid)
      else None)"

definition close_span ::
  "nat \<Rightarrow> nat \<Rightarrow> int list \<Rightarrow> nat \<Rightarrow> int list \<Rightarrow> int list option" where
  \<comment> \<open>\<^verbatim>\<open>if (auto col = maxcols_[row]; col >= 0 && col + 1 < int32_t(width))\<close>
      \<^verbatim>\<open>grid[width * row + col + 1] -= 1;\<close>\<close>
  "close_span h w maxs row grid =
     (if row < length maxs
      then (let col = maxs ! row in
            if col \<ge> 0 \<and> int32 (col + 1) < int32_t w
            then (if row < h \<and> nat col + 1 < w \<and> w * row + nat col + 1 < length grid
                  then Some (grid[w * row + nat col + 1 := grid ! (w * row + nat col + 1) - 1])
                  else None)
            else Some grid)
      else None)"

definition mark_row ::
  "nat \<Rightarrow> nat \<Rightarrow> int list \<Rightarrow> int list \<Rightarrow> nat \<Rightarrow> int list \<Rightarrow> int list option" where
  \<comment> \<open>the body of the loop over the rows\<close>
  "mark_row h w mins maxs row grid =
     Option.bind (open_span h w mins row grid) (close_span h w maxs row)"

definition mark_rows ::
  "nat \<Rightarrow> nat \<Rightarrow> int list \<Rightarrow> int list \<Rightarrow> nat \<Rightarrow> int list \<Rightarrow> int list option" where
  \<comment> \<open>the first \<open>n\<close> rounds of \<^verbatim>\<open>for (size_t row = 0; row < height; ++row)\<close>\<close>
  "mark_rows h w mins maxs n grid =
     fold (\<lambda>row acc. Option.bind acc (mark_row h w mins maxs row)) [0..<n] (Some grid)"

definition addPolygon ::
  "traversal \<Rightarrow> 'c builder \<Rightarrow> int list \<Rightarrow> polygon \<Rightarrow> (int list \<times> 'c builder) option" where
  \<comment> \<open>\<open>grid\<close> is the marker grid passed by reference; the result is that grid and the
      builder with its scratch buffers as the call leaves them\<close>
  "addPolygon trav b grid convex_hull =
     Option.bind (scan_edges trav b convex_hull)
       (\<lambda>buf. map_option (\<lambda>grid'. (grid', b\<lparr>mincols := fst buf, maxcols := snd buf\<rparr>))
          (mark_rows (height b) (width b) (fst buf) (snd buf) (height b) grid))"

definition mark_invisible :: "traversal \<Rightarrow> polygon \<Rightarrow> 'c builder \<Rightarrow> 'c builder option" where
  \<comment> \<open>\<^verbatim>\<open>addPolygon(invisible_grid_, invisible_area)\<close>\<close>
  "mark_invisible trav area b =
     map_option (\<lambda>r. (snd r)\<lparr>invisible_grid := fst r\<rparr>) (addPolygon trav b (invisible_grid b) area)"

definition mark_occupied :: "traversal \<Rightarrow> polygon \<Rightarrow> 'c builder \<Rightarrow> 'c builder option" where
  \<comment> \<open>\<^verbatim>\<open>addPolygon(occupied_grid_, occupied_area)\<close>\<close>
  "mark_occupied trav area b =
     map_option (\<lambda>r. (snd r)\<lparr>occupied_grid := fst r\<rparr>) (addPolygon trav b (occupied_grid b) area)"

text \<open>Notions used to state the properties of the rasterizer.\<close>

definition row_cols :: "nat \<Rightarrow> nat \<Rightarrow> (int \<times> int) list \<Rightarrow> int list" where
  \<comment> \<open>the columns of the cells of row \<open>r\<close> that pass the row test of the traversal loop\<close>
  "row_cols h r cells =
     map fst (filter (\<lambda>cell. snd cell = int r \<and> snd cell < int32_t h) cells)"

definition row_mins :: "traversal \<Rightarrow> 'c builder \<Rightarrow> polygon \<Rightarrow> int list" where
  \<comment> \<open>for every row, the least of the width and the columns traversed in the row\<close>
  "row_mins trav b poly =
     map (\<lambda>r. fold min (row_cols (height b) r (edge_cells trav b poly)) (int32_t (width b)))
       [0..<length (mincols b)]"

definition row_maxs :: "traversal \<Rightarrow> 'c builder \<Rightarrow> polygon \<Rightarrow> int list" where
  \<comment> \<open>for every row, the greatest of \<open>- 1\<close> and the columns traversed in the row\<close>
  "row_maxs trav b poly =
     map (\<lambda>r. fold max (row_cols (height b) r (edge_cells trav b poly)) (- 1))
       [0..<length (maxcols b)]"

definition opens :: "nat \<Rightarrow> int list \<Rightarrow> nat \<Rightarrow> nat \<Rightarrow> int" where
  \<comment> \<open>1 if the loop over the rows increments cell \<open>(r, c)\<close>\<close>
  "opens w mins r c =
     (if 0 \<le> mins ! r \<and> mins ! r < int32_t w \<and> nat (mins ! r) = c then 1 else 0)"

definition closes :: "nat \<Rightarrow> int list \<Rightarrow> nat \<Rightarrow> nat \<Rightarrow> int" where
  \<comment> \<open>1 if the loop over the rows decrements cell \<open>(r, c)\<close>\<close>
  "closes w maxs r c =
     (if 0 \<le> maxs ! r \<and> int32 (maxs ! r + 1) < int32_t w \<and> nat (maxs ! r) + 1 = c then 1 else 0)"

definition closes_inside :: "nat \<Rightarrow> int list \<Rightarrow> nat \<Rightarrow> bool" where
  \<comment> \<open>the closing write of row \<open>r\<close>, if the test lets it happen, is to a cell of the row\<close>
  "closes_inside w maxs r \<longleftrightarrow>
     \<not> (0 \<le> maxs ! r \<and> int32 (maxs ! r + 1) < int32_t w) \<or> nat (maxs ! r) + 1 < w"

definition in_bounds :: "traversal \<Rightarrow> 'c builder \<Rightarrow> polygon \<Rightarrow> bool" where
  \<comment> \<open>the closing write of every row is to a cell of the row\<close>
  "in_bounds trav b poly \<longleftrightarrow>
     list_all (closes_inside (width b) (row_maxs trav b poly)) [0..<height b]"

definition marked :: "nat \<Rightarrow> int list \<Rightarrow> int list \<Rightarrow> nat \<Rightarrow> int list \<Rightarrow> int list" where
  \<comment> \<open>the marker grid \<open>g\<close> with the increments and decrements of the first \<open>n\<close> rows\<close>
  "marked w mins maxs n g =
     map (\<lambda>k. g ! k + (if k < n * w then opens w mins (k div w) (k mod w)
                                     - closes w maxs (k div w) (k mod w) else 0))
       [0..<length g]"

definition row_sum :: "nat \<Rightarrow> int list \<Rightarrow> nat \<Rightarrow> int" where
  \<comment> \<open>the sum of row \<open>r\<close> of a marker grid\<close>
  "row_sum w g r = (\<Sum>c < w. g ! (r * w + c))"

definition touched :: "(int \<times> int) list \<Rightarrow> nat \<Rightarrow> bool" where
  \<comment> \<open>the traversal of the edges visits a cell of row \<open>r\<close>\<close>
  "touched cells r \<longleftrightarrow> (\<exists>cell \<in> set cells. snd cell = int r)"

subsection \<open>Visibility polygon builder\<close>

definition realw :: "'c builder \<Rightarrow> real" where
  "realw b = real (width b) * resolution b / 2"

definition realh :: "'c builder \<Rightarrow> real" where
  "realh b = real (height b) * resolution b / 2"

definition corners :: "'c builder \<Rightarrow> nat \<Rightarrow> point" where
  "corners b i =
     (if i mod 4 = 1 then Point (realw b) (- realh b)
      else if i mod 4 = 2 then Point (realw b) (realh b)
      else if i mod 4 = 3 then Point (- realw b) (realh b)
      else Point (- realw b) (- realh b))"

definition projection :: "'c builder \<Rightarrow> point \<Rightarrow> nat \<Rightarrow> point" where
  "projection b p i =
     (if i mod 4 = 1 then Point (p_x p * - realh b / p_y p) (- realh b)
      else if i mod 4 = 2 then Point (realw b) (p_y p * realw b / p_x p)
      else if i mod 4 = 3 then Point (p_x p * realh b / p_y p) (realh b)
      else Point (- realw b) (p_y p * - realw b / p_x p))"

fun min_element :: "('a \<Rightarrow> 'a \<Rightarrow> bool) \<Rightarrow> 'a \<Rightarrow> 'a list \<Rightarrow> 'a" where
  "min_element cmp m [] = m"
| "min_element cmp m (x # xs) = min_element cmp (if cmp x m then x else m) xs"

fun max_element :: "('a \<Rightarrow> 'a \<Rightarrow> bool) \<Rightarrow> 'a \<Rightarrow> 'a list \<Rightarrow> 'a" where
  "max_element cmp m [] = m"
| "max_element cmp m (x # xs) = max_element cmp (if cmp x m then m else x) xs"

definition minmax_element :: "('a \<Rightarrow> 'a \<Rightarrow> bool) \<Rightarrow> 'a list \<Rightarrow> ('a \<times> 'a) option" where
  \<comment> \<open>\<^verbatim>\<open>std::minmax_element\<close>: the first of the smallest elements and the last of the
      largest; \<open>None\<close> stands for the end iterator it returns on an empty range\<close>
  "minmax_element cmp xs =
     (case xs of
        [] \<Rightarrow> None
      | x # rest \<Rightarrow> Some (min_element cmp x rest, max_element cmp x rest))"

definition adjust :: "real \<Rightarrow> real" where
  "adjust t = (if t < 0 then t + 2 * pi else t)"

definition minmaxp :: "polygon \<Rightarrow> (point \<times> point) option" where
  \<comment> \<open>the pair \<^verbatim>\<open>minmaxp\<close> once the \<^verbatim>\<open>if\<close> has run\<close>
  "minmaxp occupied_polygon =
     (case minmax_element (\<lambda>p q. theta p < theta q) occupied_polygon of
        None \<Rightarrow> None
      | Some (minp, maxp) \<Rightarrow>
          if theta maxp - theta minp > pi
          then minmax_element (\<lambda>p q. adjust (theta p) < adjust (theta q)) occupied_polygon
          else Some (minp, maxp))"

partial_function (option) first_corner :: "(nat \<Rightarrow> point) \<Rightarrow> real \<Rightarrow> nat \<Rightarrow> nat option" where
  \<comment> \<open>\<^verbatim>\<open>for (;; ++i) { auto corner = corners(i); if (corner.theta() >= minang) break; }\<close>;
      \<open>None\<close> when the loop does not end\<close>
  "first_corner corner minang i =
     (if theta (corner i) \<ge> minang then Some i else first_corner corner minang (i + 1))"

partial_function (option) corner_walk ::
  "(nat \<Rightarrow> point) \<Rightarrow> real \<Rightarrow> nat \<Rightarrow> polygon \<Rightarrow> (nat \<times> polygon) option" where
  \<comment> \<open>the second loop, which appends the corners it passes to \<open>res\<close>\<close>
  "corner_walk corner maxang i res =
     (if theta (corner i) + 2 * pi * real (i div 4) \<ge> maxang then Some (i, res)
      else corner_walk corner maxang (i + 1) (res @ [corner i]))"

definition span_angles :: "point \<Rightarrow> point \<Rightarrow> real \<times> real" where
  \<comment> \<open>\<^verbatim>\<open>minang\<close> and \<^verbatim>\<open>maxang\<close>, once \<^verbatim>\<open>if (minang > maxang) maxang += 2 * M_PI\<close>
      has run\<close>
  "span_angles minp maxp =
     (let minang = theta minp;
          maxang = theta maxp
      in (minang, if minang > maxang then maxang + 2 * pi else maxang))"

definition makeInvisibleArea :: "'c builder \<Rightarrow> polygon \<Rightarrow> (fault + polygon) option" where
  \<comment> \<open>\<open>None\<close>: the call does not return\<close>
  "makeInvisibleArea b occupied_polygon =
     (case minmaxp occupied_polygon of
        None \<Rightarrow> Some (Inl EmptyPolygon)
      | Some (minp, maxp) \<Rightarrow>
          (case span_angles minp maxp of (minang, maxang) \<Rightarrow>
             (case first_corner (corners b) minang 0 of
                None \<Rightarrow> None
              | Some i \<Rightarrow>
                  (case corner_walk (corners b) maxang i [minp, projection b minp i] of
                     None \<Rightarrow> None
                   | Some (j, res) \<Rightarrow> Some (Inr (res @ [projection b maxp j, maxp]))))))"

text \<open>Notions used to state the properties of the visibility polygon builder.\<close>

definition in_wedge :: "real \<Rightarrow> real \<Rightarrow> real \<Rightarrow> bool" where
  \<comment> \<open>the bearing \<open>t\<close>, taken modulo full turns, lies in the wedge from \<open>lo\<close> to \<open>hi\<close>\<close>
  "in_wedge lo hi t \<longleftrightarrow> (\<exists>k :: int. lo \<le> t + 2 * pi * of_int k \<and> t + 2 * pi * of_int k \<le> hi)"

subsection \<open>Grid compositor: add\<close>

definition add ::
  "('n::len) word \<Rightarrow> traversal \<Rightarrow> primitive \<Rightarrow> 'n word builder
   \<Rightarrow> (fault option \<times> 'n word builder) option" where
  \<comment> \<open>\<open>None\<close>: the call does not return, or it writes outside a marker grid.
      \<open>Some (Some f, b')\<close>: it fails with \<open>f\<close> and leaves the builder as \<open>b'\<close>.
      \<open>Some (None, b')\<close>: it returns.\<close>
  "add count_max trav prim b =
     (let c = primitive_count b;
          b1 = b\<lparr>primitive_count := c + 1\<rparr>
      in if c = count_max then Some (Some CapacityError, b1)
         else
           (let occupied_area = makeOccupiedArea b1 prim in
            case makeInvisibleArea b1 occupied_area of
              None \<Rightarrow> None
            | Some (Inl f) \<Rightarrow> Some (Some f, b1)
            | Some (Inr invisible_area) \<Rightarrow>
                map_option (Pair None)
                  (Option.bind (mark_invisible trav invisible_area b1)
                     (mark_occupied trav occupied_area))))"

fun add_all ::
  "('n::len) word \<Rightarrow> traversal \<Rightarrow> primitive list \<Rightarrow> 'n word builder
   \<Rightarrow> (fault option \<times> 'n word builder) option" where
  \<comment> \<open>a sequence of \<open>add\<close> calls; a call that fails or does not complete ends it\<close>
  "add_all count_max trav [] b = Some (None, b)"
| "add_all count_max trav (p # ps) b =
     (case add count_max trav p b of
        None \<Rightarrow> None
      | Some (Some f, b') \<Rightarrow> Some (Some f, b')
      | Some (None, b') \<Rightarrow> add_all count_max trav ps b')"

text \<open>Notions used to state the properties of \<open>add\<close>.\<close>

definition same_frame :: "'c builder \<Rightarrow> 'c builder \<Rightarrow> bool" where
  \<comment> \<open>the two builders agree on everything a call reads except the counter, the marker
      grids, the values and the contents of the scratch buffers\<close>
  "same_frame b b' \<longleftrightarrow>
     resolution b' = resolution b \<and> height b' = height b \<and> width b' = width b
     \<and> occupied_cost b' = occupied_cost b \<and> invisible_cost b' = invisible_cost b
     \<and> origin b' = origin b
     \<and> length (mincols b') = length (mincols b) \<and> length (maxcols b') = length (maxcols b)"

definition contribution :: "traversal \<Rightarrow> 'c builder \<Rightarrow> polygon \<Rightarrow> nat \<Rightarrow> int" where
  \<comment> \<open>what \<open>addPolygon\<close> adds to cell \<open>k\<close> of a marker grid\<close>
  "contribution trav b poly k =
     opens (width b) (row_mins trav b poly) (k div width b) (k mod width b)
     - closes (width b) (row_maxs trav b poly) (k div width b) (k mod width b)"

definition invisible_area :: "'c builder \<Rightarrow> primitive \<Rightarrow> polygon" where
  \<comment> \<open>the polygon \<open>makeInvisibleArea\<close> returns for a primitive, when it returns one\<close>
  "invisible_area b prim =
     (case makeInvisibleArea b (makeOccupiedArea b prim) of Some (Inr area) \<Rightarrow> area | _ \<Rightarrow> [])"

definition completes :: "traversal \<Rightarrow> 'c builder \<Rightarrow> primitive \<Rightarrow> bool" where
  \<comment> \<open>\<open>makeInvisibleArea\<close> returns for the primitive, and both calls of \<open>addPolygon\<close>
      write inside their marker grid\<close>
  "completes trav b prim \<longleftrightarrow>
     makeInvisibleArea b (makeOccupiedArea b prim) \<noteq> None
     \<and> in_bounds trav b (invisible_area b prim)
     \<and> in_bounds trav b (makeOccupiedArea b prim)"

definition added :: "traversal \<Rightarrow> primitive \<Rightarrow> ('n::len) word builder \<Rightarrow> 'n word builder" where
  \<comment> \<open>the builder a call of \<open>add\<close> that returns leaves\<close>
  "added trav prim b =
     (let b1 = b\<lparr>primitive_count := primitive_count b + 1\<rparr> in
      case Option.bind (mark_invisible trav (invisible_area b prim) b1)
             (mark_occupied trav (makeOccupiedArea b prim)) of
        Some b3 \<Rightarrow> b3
      | None \<Rightarrow> b1)"

section \<open>Properties\<close>

subsection \<open>reset\<close>

text \<open>
  C9. \<open>reset pose0\<close> stores the new sensor pose, sets the primitive counter to 0 and
  every element of the occupied and of the invisible accumulator to 0, keeping the
  length of each; the values array is left exactly as it was, so its elements and its
  length are unchanged.
\<close>

theorem reset_effect:
  "origin (reset pose0 b) = pose0
   \<and> primitive_count (reset pose0 b) = 0
   \<and> occupied_grid (reset pose0 b) = replicate (length (occupied_grid b)) 0
   \<and> invisible_grid (reset pose0 b) = replicate (length (invisible_grid b)) 0
   \<and> length (occupied_grid (reset pose0 b)) = length (occupied_grid b)
   \<and> length (invisible_grid (reset pose0 b)) = length (invisible_grid b)
   \<and> grid_values (reset pose0 b) = grid_values b
   \<and> get (reset pose0 b) = get b"
  by (simp add: reset_def get_def)

subsection \<open>Coordinate transformer\<close>

lemma quat_times_vec_rotated_by:
  assumes "unit_quaternion q"
  shows "quat_times_vec q v = rotated_by q v"
proof -
  let ?n = "q_w q * q_w q + q_x q * q_x q + q_y q * q_y q + q_z q * q_z q"
  have x: "p_x (quat_times_vec q v) = p_x (rotated_by q v) + (1 - ?n) * p_x v"
    by (simp add: quat_times_vec_def rotated_by_def hamilton_def pure_quaternion_def conjugate_def
        cross_def vec_def Let_def algebra_simps)
  have y: "p_y (quat_times_vec q v) = p_y (rotated_by q v) + (1 - ?n) * p_y v"
    by (simp add: quat_times_vec_def rotated_by_def hamilton_def pure_quaternion_def conjugate_def
        cross_def vec_def Let_def algebra_simps)
  have z: "p_z (quat_times_vec q v) = p_z (rotated_by q v) + (1 - ?n) * p_z v"
    by (simp add: quat_times_vec_def rotated_by_def hamilton_def pure_quaternion_def conjugate_def
        cross_def vec_def Let_def algebra_simps)
  have n: "?n = 1" using assms by (simp add: unit_quaternion_def)
  show ?thesis
    using x y z unfolding n
    by (intro point.equality) (simp_all add: quat_times_vec_def rotated_by_def vec_def Let_def)
qed

lemma conjugate_inverse:
  assumes "unit_quaternion q"
  shows "hamilton (conjugate q) q = \<lparr>q_x = 0, q_y = 0, q_z = 0, q_w = 1\<rparr>"
  using assms by (simp add: hamilton_def conjugate_def unit_quaternion_def algebra_simps)

lemma unit_conjugate: "unit_quaternion q \<Longrightarrow> unit_quaternion (conjugate q)"
  by (simp add: unit_quaternion_def conjugate_def)

text \<open>
  C6. For every world point \<open>p\<close>, \<open>transformToGrid p\<close> is \<open>p\<close> rotated by the conjugate
  of the stored orientation, which is its inverse, minus the raw position of the origin:
  the position is subtracted after the rotation and is not rotated itself. The
  orientation of a pose is a unit quaternion.
\<close>

theorem transformToGrid_rotate_then_subtract:
  assumes "unit_quaternion (orientation (origin b))"
  shows "transformToGrid b p
         = vec_minus (rotated_by (conjugate (orientation (origin b))) p) (position (origin b))
       \<and> hamilton (conjugate (orientation (origin b))) (orientation (origin b))
         = \<lparr>q_x = 0, q_y = 0, q_z = 0, q_w = 1\<rparr>"
proof -
  have "transformToGrid b p
        = vec_minus (quat_times_vec (conjugate (orientation (origin b))) p) (position (origin b))"
    by (simp add: transformToGrid_def Let_def vec_minus_def)
  then show ?thesis
    using quat_times_vec_rotated_by [OF unit_conjugate [OF assms], of p] conjugate_inverse [OF assms]
    by simp
qed

theorem transformToGrid_rotate_then_subtract_witness:
  "unit_quaternion \<lparr>q_x = 0, q_y = 0, q_z = 1, q_w = 0\<rparr>
   \<and> transformToGrid ((OccupancyGridBuilder 1 10 10 100 50 :: 16 word builder)
        \<lparr>origin := \<lparr>position = \<lparr>p_x = 1, p_y = 0, p_z = 0\<rparr>,
                    orientation = \<lparr>q_x = 0, q_y = 0, q_z = 1, q_w = 0\<rparr>\<rparr>\<rparr>)
        \<lparr>p_x = 1, p_y = 0, p_z = 0\<rparr>
     = \<lparr>p_x = - 2, p_y = 0, p_z = 0\<rparr>"
proof -
  let ?b = "(OccupancyGridBuilder 1 10 10 100 50 :: 16 word builder)
        \<lparr>origin := \<lparr>position = \<lparr>p_x = 1, p_y = 0, p_z = 0\<rparr>,
                    orientation = \<lparr>q_x = 0, q_y = 0, q_z = 1, q_w = 0\<rparr>\<rparr>\<rparr>"
  have u: "unit_quaternion (orientation (origin ?b))" by (simp add: unit_quaternion_def)
  show ?thesis
    using transformToGrid_rotate_then_subtract [OF u, of "\<lparr>p_x = 1, p_y = 0, p_z = 0\<rparr>"]
    by (simp add: unit_quaternion_def rotated_by_def hamilton_def pure_quaternion_def
        conjugate_def vec_def vec_minus_def)
qed

text \<open>
  The same point under the inverse of the rigid motion of the pose, which rotates the
  difference \<open>p - position\<close>, is the origin: the two transforms differ.
\<close>

lemma transformToGrid_not_rigid_inverse:
  "rotated_by (conjugate \<lparr>q_x = 0, q_y = 0, q_z = 1, q_w = 0\<rparr>)
     (vec_minus \<lparr>p_x = 1, p_y = 0, p_z = 0\<rparr> \<lparr>p_x = 1, p_y = 0, p_z = 0\<rparr>)
   = \<lparr>p_x = 0, p_y = 0, p_z = 0\<rparr>"
  by (simp add: rotated_by_def hamilton_def pure_quaternion_def conjugate_def vec_def vec_minus_def)

subsection \<open>build: the running sums\<close>

lemma length_accumulate: "length (accumulate g k) = length g"
  by (simp add: accumulate_def)

lemma accumulate_nth:
  "k + 1 < length g \<Longrightarrow> accumulate g k ! j = (if j = k + 1 then g ! (k + 1) + g ! k else g ! j)"
  by (simp add: accumulate_def)

lemma length_prefix_cols:
  "length (fold (\<lambda>col g. accumulate g (row * w + col)) [0..<n] g) = length g"
  by (induction n) (simp_all add: length_accumulate)

lemma prefix_cols_nth:
  assumes "row * w + n < length g"
  shows "fold (\<lambda>col g. accumulate g (row * w + col)) [0..<n] g ! j
         = (if row * w \<le> j \<and> j \<le> row * w + n
            then (\<Sum>c \<le> j - row * w. g ! (row * w + c)) else g ! j)"
  using assms
proof (induction n arbitrary: j)
  case 0
  then show ?case by (auto simp: le_antisym)
next
  case (Suc n)
  let ?g' = "fold (\<lambda>col g. accumulate g (row * w + col)) [0..<n] g"
  have len: "length ?g' = length g" by (rule length_prefix_cols)
  have IH: "\<And>j. ?g' ! j = (if row * w \<le> j \<and> j \<le> row * w + n
                             then (\<Sum>c \<le> j - row * w. g ! (row * w + c)) else g ! j)"
    using Suc by simp
  have inr: "row * w + n + 1 < length ?g'" using Suc.prems len by simp
  have step: "fold (\<lambda>col g. accumulate g (row * w + col)) [0..<Suc n] g ! j
     = (if j = row * w + n + 1 then ?g' ! (row * w + n + 1) + ?g' ! (row * w + n) else ?g' ! j)"
    using accumulate_nth [OF inr, of j] by simp
  show ?case
  proof (cases "j = row * w + n + 1")
    case True
    have "?g' ! (row * w + n + 1) + ?g' ! (row * w + n)
          = g ! (row * w + n + 1) + (\<Sum>c \<le> n. g ! (row * w + c))"
      by (simp add: IH)
    also have "\<dots> = (\<Sum>c \<le> Suc n. g ! (row * w + c))" by simp
    finally show ?thesis using True step by simp
  next
    case False
    then show ?thesis using step by (auto simp: IH)
  qed
qed

lemma length_prefix_row: "length (prefix_row w g row) = length g"
  by (simp add: prefix_row_def length_prefix_cols)

lemma prefix_row_nth:
  assumes "(row + 1) * w \<le> length g"
  shows "prefix_row w g row ! j
         = (if row * w \<le> j \<and> j < row * w + w
            then (\<Sum>c \<le> j - row * w. g ! (row * w + c)) else g ! j)"
proof (cases "w = 0")
  case True
  then show ?thesis by (simp add: prefix_row_def)
next
  case False
  then have "row * w + (w - 1) < length g" using assms by simp
  from prefix_cols_nth [OF this, of j] show ?thesis
    using False by (auto simp: prefix_row_def)
qed

lemma length_prefix_rows_upto:
  "length (fold (\<lambda>row g. prefix_row w g row) [0..<n] g) = length g"
  by (induction n) (simp_all add: length_prefix_row)

lemma length_prefix_rows: "length (prefix_rows h w g) = length g"
  by (simp add: prefix_rows_def length_prefix_rows_upto)

lemma row_index:
  assumes "n * w \<le> j" "j < n * w + (w::nat)"
  shows "j div w = n" "j mod w = j - n * w"
proof -
  obtain c where c: "j = n * w + c" "c < w"
    using assms by (metis add_diff_inverse_nat nat_add_left_cancel_less not_less)
  show "j div w = n" using c by simp
  show "j mod w = j - n * w" using c by simp
qed

lemma prefix_rows_upto_nth:
  assumes "n * w \<le> length g"
  shows "fold (\<lambda>row g. prefix_row w g row) [0..<n] g ! j
         = (if j < n * w then coverage w g j else g ! j)"
  using assms
proof (induction n arbitrary: j)
  case 0
  then show ?case by simp
next
  case (Suc n)
  let ?g' = "fold (\<lambda>row g. prefix_row w g row) [0..<n] g"
  have len: "length ?g' = length g" by (rule length_prefix_rows_upto)
  have nw: "n * w \<le> length g" using Suc.prems by simp
  have IH: "\<And>j. ?g' ! j = (if j < n * w then coverage w g j else g ! j)"
    using Suc.IH [OF nw] by simp
  have row: "(n + 1) * w \<le> length ?g'" using Suc.prems len by simp
  have step: "fold (\<lambda>row g. prefix_row w g row) [0..<Suc n] g ! j
      = (if n * w \<le> j \<and> j < n * w + w
         then (\<Sum>c \<le> j - n * w. ?g' ! (n * w + c)) else ?g' ! j)"
    using prefix_row_nth [OF row, of j] by simp
  show ?case
  proof (cases "n * w \<le> j \<and> j < n * w + w")
    case True
    have d: "j div w = n" and m: "j mod w = j - n * w"
      using row_index [of n w j] True by simp_all
    have "(\<Sum>c \<le> j - n * w. ?g' ! (n * w + c)) = (\<Sum>c \<le> j - n * w. g ! (n * w + c))"
      by (rule sum.cong) (simp_all add: IH)
    then show ?thesis using True step by (simp add: coverage_def d m)
  next
    case False
    then show ?thesis using step IH by auto
  qed
qed

lemma prefix_rows_nth:
  assumes "length g = h * w" "i < h * w"
  shows "prefix_rows h w g ! i = coverage w g i"
  using prefix_rows_upto_nth [of h w g i] assms by (simp add: prefix_rows_def)

lemma length_assign_cells: "length (fold (\<lambda>i v. v[i := f i]) [0..<n] v) = length v"
  by (induction n) simp_all

lemma assign_cells_nth:
  "j < length v \<Longrightarrow>
   fold (\<lambda>i v. v[i := f i]) [0..<n] v ! j = (if j < n then f j else v ! j)"
proof (induction n)
  case 0
  then show ?case by simp
next
  case (Suc n)
  let ?v' = "fold (\<lambda>i v. v[i := f i]) [0..<n] v"
  have len: "length ?v' = length v" by (rule length_assign_cells)
  have "fold (\<lambda>i v. v[i := f i]) [0..<Suc n] v ! j = ?v'[n := f n] ! j" by simp
  also have "\<dots> = (if j = n then f n else ?v' ! j)"
    using Suc.prems len by (simp add: nth_list_update)
  finally show ?case using Suc by (auto simp: less_Suc_eq)
qed

lemma build_cell:
  assumes "well_formed b" "i < height b * width b"
  shows "grid_values (build b) ! i
         = (if coverage (width b) (occupied_grid b) i \<noteq> 0 then occupied_cost b
            else if coverage (width b) (invisible_grid b) i \<noteq> 0 then invisible_cost b
            else 0)"
  using assms
  by (simp add: build_def Let_def well_formed_def assign_cells_nth prefix_rows_nth)

text \<open>
  The claim as stated tests the coverage counts for being positive; \<open>build\<close> tests
  them for being different from 0. The two differ on a negative count: with the occupied
  differences \<open>[0, - 1]\<close> in a grid of one row and two columns, the second cell has
  the count \<open>- 1\<close> and is given the occupied cost.
\<close>

theorem build_positive_count_counterexample:
  "grid_values (build ((OccupancyGridBuilder 1 1 2 100 50 :: 16 word builder)
       \<lparr>occupied_grid := [0, - 1]\<rparr>)) ! 1
   \<noteq> (if 0 < coverage 2 [0, - 1] 1 then 100
       else if 0 < coverage 2 [0, 0] 1 then 50 else 0)"
  by (simp add: build_def prefix_rows_def prefix_row_def accumulate_def coverage_def
      OccupancyGridBuilder_def upt_rec)

text \<open>
  C1, amended. After \<open>build\<close>, for every cell index \<open>i\<close> in \<open>[0, height * width)\<close>:
  \<open>values[i]\<close> is the occupied cost if the prefix-summed occupied count at \<open>i\<close> is
  not 0, else the invisible cost if the prefix-summed invisible count at \<open>i\<close> is not 0,
  else 0; occupied dominates invisible, which dominates free.
\<close>

theorem build_values:
  assumes "well_formed b" "i < height b * width b"
  shows "grid_values (build b) ! i
         = (if coverage (width b) (occupied_grid b) i \<noteq> 0 then occupied_cost b
            else if coverage (width b) (invisible_grid b) i \<noteq> 0 then invisible_cost b
            else 0)"
  using assms by (rule build_cell)

theorem build_values_witness:
  "well_formed ((OccupancyGridBuilder 1 1 2 100 50 :: 16 word builder)
       \<lparr>occupied_grid := [1, - 1], invisible_grid := [1, 0]\<rparr>)
   \<and> grid_values (build ((OccupancyGridBuilder 1 1 2 100 50 :: 16 word builder)
       \<lparr>occupied_grid := [1, - 1], invisible_grid := [1, 0]\<rparr>)) ! 1 = 50"
proof -
  let ?b = "(OccupancyGridBuilder 1 1 2 100 50 :: 16 word builder)
       \<lparr>occupied_grid := [1, - 1], invisible_grid := [1, 0]\<rparr>"
  have wf: "well_formed ?b" by (simp add: well_formed_def OccupancyGridBuilder_def)
  have i: "1 < height ?b * width ?b" by (simp add: OccupancyGridBuilder_def)
  show ?thesis using wf build_values [OF wf i]
    by (simp add: coverage_def OccupancyGridBuilder_def)
qed

text \<open>On counts that are not negative the two tests agree.\<close>

lemma build_cell_nonnegative:
  assumes "well_formed b" "i < height b * width b"
      and "0 \<le> coverage (width b) (occupied_grid b) i" "0 \<le> coverage (width b) (invisible_grid b) i"
  shows "grid_values (build b) ! i
         = (if 0 < coverage (width b) (occupied_grid b) i then occupied_cost b
            else if 0 < coverage (width b) (invisible_grid b) i then invisible_cost b
            else 0)"
  using build_cell [OF assms(1,2)] assms(3,4) by auto

subsection \<open>Rasterizer: the row scratch buffers and the spans\<close>

lemma int32_t_eq: "int32_t n = signed_take_bit 31 (int n)"
  by (simp add: int32_t_def signed_of_nat)

lemma int32_t_le: "int32_t n \<le> int n"
  by (simp add: int32_t_eq signed_take_bit_int_less_eq_self_iff)

lemma int32_t_small: "n < 2 ^ 31 \<Longrightarrow> int32_t n = int n"
proof -
  assume "n < 2 ^ 31"
  then have "int n < 2 ^ 31" by (metis of_nat_less_iff of_nat_numeral of_nat_power)
  then show ?thesis by (simp add: int32_t_eq signed_take_bit_int_eq_self)
qed

lemma int32_eq: "int32 x = signed_take_bit 31 x"
  by (simp add: int32_def signed_of_int)

lemma int32_small: "- (2 ^ 31) \<le> x \<Longrightarrow> x < 2 ^ 31 \<Longrightarrow> int32 x = x"
  by (simp add: int32_eq signed_take_bit_int_eq_self)

lemma row_cols_Cons:
  "row_cols h r ((col, row) # cells)
   = (if row = int r \<and> row < int32_t h then col # row_cols h r cells else row_cols h r cells)"
  by (simp add: row_cols_def)

text \<open>
  With scratch buffers of \<open>height\<close> elements the traversal loop stays inside them, and
  leaves in each row the least and the greatest column traversed in that row.
\<close>

lemma record_cells:
  assumes "length mins = h" "length maxs = h"
  shows "fold (\<lambda>cell acc. Option.bind acc (record_cell h cell)) cells (Some (mins, maxs))
         = Some (map (\<lambda>r. fold min (row_cols h r cells) (mins ! r)) [0..<h],
                 map (\<lambda>r. fold max (row_cols h r cells) (maxs ! r)) [0..<h])"
  using assms
proof (induction cells arbitrary: mins maxs)
  case Nil
  then show ?case using map_nth [of mins] map_nth [of maxs] by (simp add: row_cols_def)
next
  case (Cons cell cells)
  obtain col row where cell: "cell = (col, row)" by (cases cell)
  show ?case
  proof (cases "row \<ge> 0 \<and> row < int32_t h")
    case True
    let ?mins = "mins[nat row := min (mins ! nat row) col]"
    let ?maxs = "maxs[nat row := max (maxs ! nat row) col]"
    have rh: "nat row < h" using True int32_t_le [of h] by linarith
    have step: "record_cell h cell (mins, maxs) = Some (?mins, ?maxs)"
      using True rh Cons.prems by (simp add: record_cell_def cell)
    have IH: "fold (\<lambda>cell acc. Option.bind acc (record_cell h cell)) cells (Some (?mins, ?maxs))
         = Some (map (\<lambda>r. fold min (row_cols h r cells) (?mins ! r)) [0..<h],
                 map (\<lambda>r. fold max (row_cols h r cells) (?maxs ! r)) [0..<h])"
      using Cons.IH [of ?mins ?maxs] Cons.prems by simp
    have a: "fold min (row_cols h r cells) (?mins ! r) = fold min (row_cols h r (cell # cells)) (mins ! r)"
      and b: "fold max (row_cols h r cells) (?maxs ! r) = fold max (row_cols h r (cell # cells)) (maxs ! r)"
      if r: "r < h" for r
    proof -
      show "fold min (row_cols h r cells) (?mins ! r) = fold min (row_cols h r (cell # cells)) (mins ! r)"
      proof (cases "row = int r")
        case same: True
        then have "nat row = r" by simp
        then show ?thesis using same True r Cons.prems
          by (simp add: cell row_cols_Cons min.commute)
      next
        case False
        then have "nat row \<noteq> r" using True by auto
        then show ?thesis using False by (simp add: cell row_cols_Cons)
      qed
      show "fold max (row_cols h r cells) (?maxs ! r) = fold max (row_cols h r (cell # cells)) (maxs ! r)"
      proof (cases "row = int r")
        case same: True
        then have "nat row = r" by simp
        then show ?thesis using same True r Cons.prems
          by (simp add: cell row_cols_Cons max.commute)
      next
        case False
        then have "nat row \<noteq> r" using True by auto
        then show ?thesis using False by (simp add: cell row_cols_Cons)
      qed
    qed
    have "fold (\<lambda>cell acc. Option.bind acc (record_cell h cell)) (cell # cells) (Some (mins, maxs))
          = fold (\<lambda>cell acc. Option.bind acc (record_cell h cell)) cells (Some (?mins, ?maxs))"
      using step by simp
    also have "\<dots> = Some (map (\<lambda>r. fold min (row_cols h r (cell # cells)) (mins ! r)) [0..<h],
                 map (\<lambda>r. fold max (row_cols h r (cell # cells)) (maxs ! r)) [0..<h])"
      unfolding IH using a b by simp
    finally show ?thesis .
  next
    case False
    then have step: "record_cell h cell (mins, maxs) = Some (mins, maxs)"
      by (auto simp: record_cell_def cell)
    have "row_cols h r (cell # cells) = row_cols h r cells" for r
      using False by (auto simp: cell row_cols_Cons)
    then show ?thesis using Cons.IH [OF Cons.prems] step by simp
  qed
qed

lemma length_row_mins [simp]: "length (row_mins trav b poly) = length (mincols b)"
  by (simp add: row_mins_def)

lemma length_row_maxs [simp]: "length (row_maxs trav b poly) = length (maxcols b)"
  by (simp add: row_maxs_def)

lemma row_mins_nth:
  "r < length (mincols b) \<Longrightarrow> row_mins trav b poly ! r
     = fold min (row_cols (height b) r (edge_cells trav b poly)) (int32_t (width b))"
  by (simp add: row_mins_def)

lemma row_maxs_nth:
  "r < length (maxcols b) \<Longrightarrow> row_maxs trav b poly ! r
     = fold max (row_cols (height b) r (edge_cells trav b poly)) (- 1)"
  by (simp add: row_maxs_def)

lemma scan_edges_eq:
  assumes "length (mincols b) = height b" "length (maxcols b) = height b"
  shows "scan_edges trav b poly = Some (row_mins trav b poly, row_maxs trav b poly)"
  using record_cells [of "replicate (height b) (int32_t (width b))" "height b"
      "replicate (height b) (- 1)" "edge_cells trav b poly"] assms
  by (simp add: scan_edges_def row_mins_def row_maxs_def cong: map_cong)

lemma fold_min_le_iff: "fold min xs (a::int) \<le> k \<longleftrightarrow> a \<le> k \<or> (\<exists>x\<in>set xs. x \<le> k)"
  by (induction xs arbitrary: a) (auto simp: min_le_iff_disj)

lemma fold_min_less_iff: "fold min xs (a::int) < k \<longleftrightarrow> a < k \<or> (\<exists>x\<in>set xs. x < k)"
  by (induction xs arbitrary: a) (auto simp: min_less_iff_disj)

lemma fold_max_ge_iff: "k \<le> fold max xs (a::int) \<longleftrightarrow> k \<le> a \<or> (\<exists>x\<in>set xs. k \<le> x)"
  by (induction xs arbitrary: a) (auto simp: le_max_iff_disj)

lemma fold_max_less_iff: "fold max xs (a::int) < k \<longleftrightarrow> a < k \<and> (\<forall>x\<in>set xs. x < k)"
  by (induction xs arbitrary: a) auto

lemma fold_min_ge_iff: "k \<le> fold min xs (a::int) \<longleftrightarrow> k \<le> a \<and> (\<forall>x\<in>set xs. k \<le> x)"
  by (induction xs arbitrary: a) auto

lemma in_row_iff:
  "a < w \<Longrightarrow> k = w * row + a \<longleftrightarrow> (row * w \<le> k \<and> k < row * w + w \<and> a = k - row * w)"
  for a w k row :: nat
  by (auto simp: mult.commute)

lemma row_inside:
  assumes "length g = h * w" "row < h" "c < w"
  shows "w * row + c < length g"
proof -
  have "w * row + c < row * w + w" using assms(3) by (simp add: mult.commute)
  also have "\<dots> = (row + 1) * w" by simp
  also have "\<dots> \<le> h * w" using assms(2) by (intro mult_le_mono1) simp
  finally show ?thesis using assms(1) by simp
qed

text \<open>What the two writes of a round of the loop over the rows do, when they are made.\<close>

lemma open_span_nth:
  assumes "open_span h w mins row g = Some g'"
  shows "length g' = length g"
    and "k < length g \<Longrightarrow> g' ! k
           = g ! k + (if row * w \<le> k \<and> k < row * w + w then opens w mins row (k - row * w) else 0)"
proof -
  show "length g' = length g"
    using assms by (auto simp: open_span_def Let_def split: if_splits)
  assume k: "k < length g"
  show "g' ! k = g ! k + (if row * w \<le> k \<and> k < row * w + w then opens w mins row (k - row * w) else 0)"
  proof (cases "mins ! row \<ge> 0 \<and> mins ! row < int32_t w")
    case True
    then have g': "g' = g[w * row + nat (mins ! row) := g ! (w * row + nat (mins ! row)) + 1]"
      and a: "nat (mins ! row) < w" and inr: "w * row + nat (mins ! row) < length g"
      using assms by (auto simp: open_span_def Let_def split: if_splits)
    have "g' ! k = (if k = w * row + nat (mins ! row) then g ! k + 1 else g ! k)"
      using inr k by (simp add: g' nth_list_update)
    also have "\<dots> = g ! k + (if row * w \<le> k \<and> k < row * w + w then opens w mins row (k - row * w) else 0)"
      unfolding in_row_iff [OF a] using True by (simp add: opens_def)
    finally show ?thesis .
  next
    case False
    then have "g' = g" "opens w mins row (k - row * w) = 0"
      using assms by (auto simp: open_span_def Let_def opens_def split: if_splits)
    then show ?thesis by simp
  qed
qed

lemma close_span_nth:
  assumes "close_span h w maxs row g = Some g'"
  shows "length g' = length g"
    and "k < length g \<Longrightarrow> g' ! k
           = g ! k - (if row * w \<le> k \<and> k < row * w + w then closes w maxs row (k - row * w) else 0)"
proof -
  show "length g' = length g"
    using assms by (auto simp: close_span_def Let_def split: if_splits)
  assume k: "k < length g"
  show "g' ! k = g ! k - (if row * w \<le> k \<and> k < row * w + w then closes w maxs row (k - row * w) else 0)"
  proof (cases "maxs ! row \<ge> 0 \<and> int32 (maxs ! row + 1) < int32_t w")
    case True
    then have g': "g' = g[w * row + nat (maxs ! row) + 1 := g ! (w * row + nat (maxs ! row) + 1) - 1]"
      and z: "nat (maxs ! row) + 1 < w" and inr: "w * row + nat (maxs ! row) + 1 < length g"
      using assms by (auto simp: close_span_def Let_def split: if_splits)
    have "g' ! k = (if k = w * row + (nat (maxs ! row) + 1) then g ! k - 1 else g ! k)"
      using inr k by (simp add: g' nth_list_update add.assoc)
    also have "\<dots> = g ! k - (if row * w \<le> k \<and> k < row * w + w then closes w maxs row (k - row * w) else 0)"
      unfolding in_row_iff [OF z] using True by (simp add: closes_def)
    finally show ?thesis .
  next
    case False
    then have "g' = g" "closes w maxs row (k - row * w) = 0"
      using assms by (auto simp: close_span_def Let_def closes_def split: if_splits)
    then show ?thesis by simp
  qed
qed

text \<open>
  The opening write is always to a cell of the row. The closing write is made outside
  the row exactly when the test lets through a column whose successor is not below the
  width.
\<close>

lemma open_span_returns:
  assumes "length mins = h" "length g = h * w" "row < h"
  shows "open_span h w mins row g \<noteq> None"
proof -
  have "nat (mins ! row) < w \<and> w * row + nat (mins ! row) < length g"
    if "mins ! row \<ge> 0 \<and> mins ! row < int32_t w"
  proof -
    have a: "nat (mins ! row) < w" using that int32_t_le [of w] by linarith
    then show ?thesis using row_inside [OF assms(2,3) a] by simp
  qed
  then show ?thesis using assms by (auto simp: open_span_def Let_def)
qed

lemma close_span_returns:
  assumes "length maxs = h" "length g = h * w" "row < h"
  shows "close_span h w maxs row g \<noteq> None \<longleftrightarrow> closes_inside w maxs row"
proof -
  have "w * row + nat (maxs ! row) + 1 < length g" if "nat (maxs ! row) + 1 < w"
    using row_inside [OF assms(2,3) that] by (simp add: add.assoc)
  then show ?thesis using assms by (auto simp: close_span_def closes_inside_def Let_def)
qed

lemma mark_row_nth:
  assumes "mark_row h w mins maxs row g = Some g'"
  shows "length g' = length g"
    and "k < length g \<Longrightarrow> g' ! k
           = g ! k + (if row * w \<le> k \<and> k < row * w + w
                      then opens w mins row (k - row * w) - closes w maxs row (k - row * w) else 0)"
proof -
  from assms obtain g1 where o: "open_span h w mins row g = Some g1"
    and c: "close_span h w maxs row g1 = Some g'"
    by (auto simp: mark_row_def bind_eq_Some_conv)
  show "length g' = length g"
    using open_span_nth(1) [OF o] close_span_nth(1) [OF c] by simp
  assume k: "k < length g"
  then have k1: "k < length g1" using open_span_nth(1) [OF o] by simp
  show "g' ! k = g ! k + (if row * w \<le> k \<and> k < row * w + w
                      then opens w mins row (k - row * w) - closes w maxs row (k - row * w) else 0)"
    using open_span_nth(2) [OF o k] close_span_nth(2) [OF c k1] by simp
qed

lemma mark_row_returns:
  assumes "length mins = h" "length maxs = h" "length g = h * w" "row < h"
  shows "mark_row h w mins maxs row g \<noteq> None \<longleftrightarrow> closes_inside w maxs row"
proof -
  obtain g1 where o: "open_span h w mins row g = Some g1"
    using open_span_returns [OF assms(1,3,4)] by auto
  have "length g1 = h * w" using open_span_nth(1) [OF o] assms(3) by simp
  then show ?thesis
    using close_span_returns [OF assms(2) _ assms(4), of g1 w] o by (simp add: mark_row_def)
qed

lemma mark_rows_Suc:
  "mark_rows h w mins maxs (Suc n) g
   = Option.bind (mark_rows h w mins maxs n g) (mark_row h w mins maxs n)"
  by (simp add: mark_rows_def)

lemma mark_rows_nth:
  assumes "mark_rows h w mins maxs n g = Some g'"
  shows "length g' = length g"
    and "k < length g \<Longrightarrow> g' ! k
           = g ! k + (if k < n * w then opens w mins (k div w) (k mod w)
                                         - closes w maxs (k div w) (k mod w) else 0)"
proof -
  have "length g' = length g
        \<and> (k < length g \<longrightarrow> g' ! k
           = g ! k + (if k < n * w then opens w mins (k div w) (k mod w)
                                         - closes w maxs (k div w) (k mod w) else 0))"
    using assms
  proof (induction n arbitrary: g')
    case 0
    then show ?case by (simp add: mark_rows_def)
  next
    case (Suc n)
    from Suc.prems obtain g1 where r: "mark_rows h w mins maxs n g = Some g1"
      and m: "mark_row h w mins maxs n g1 = Some g'"
      by (auto simp: mark_rows_Suc bind_eq_Some_conv)
    have len1: "length g1 = length g" using Suc.IH [OF r] by simp
    have len: "length g' = length g" using mark_row_nth(1) [OF m] len1 by simp
    have nth: "g' ! k = g ! k + (if k < Suc n * w then opens w mins (k div w) (k mod w)
                                         - closes w maxs (k div w) (k mod w) else 0)"
      if k: "k < length g"
    proof -
      have IH: "g1 ! k = g ! k + (if k < n * w then opens w mins (k div w) (k mod w)
                                         - closes w maxs (k div w) (k mod w) else 0)"
        using Suc.IH [OF r] k by simp
      have step: "g' ! k = g1 ! k + (if n * w \<le> k \<and> k < n * w + w
                      then opens w mins n (k - n * w) - closes w maxs n (k - n * w) else 0)"
        using mark_row_nth(2) [OF m, of k] k len1 by simp
      show ?thesis
      proof (cases "n * w \<le> k \<and> k < n * w + w")
        case True
        have d: "k div w = n" and md: "k mod w = k - n * w"
          using row_index [of n w k] True by simp_all
        show ?thesis using True step IH by (simp add: d md)
      next
        case False
        then show ?thesis using step IH by auto
      qed
    qed
    show ?case using len nth by simp
  qed
  then show "length g' = length g"
    and "k < length g \<Longrightarrow> g' ! k
           = g ! k + (if k < n * w then opens w mins (k div w) (k mod w)
                                         - closes w maxs (k div w) (k mod w) else 0)"
    by simp_all
qed

lemma mark_rows_returns:
  assumes "length mins = h" "length maxs = h" "length g = h * w" "n \<le> h"
  shows "mark_rows h w mins maxs n g \<noteq> None \<longleftrightarrow> (\<forall>r < n. closes_inside w maxs r)"
  using assms(4)
proof (induction n)
  case 0
  then show ?case by (simp add: mark_rows_def)
next
  case (Suc n)
  have n: "n < h" using Suc.prems by simp
  show ?case
  proof (cases "mark_rows h w mins maxs n g")
    case None
    then have "\<not> (\<forall>r < n. closes_inside w maxs r)" using Suc.IH n by simp
    then have "\<not> (\<forall>r < Suc n. closes_inside w maxs r)" using less_Suc_eq by blast
    then show ?thesis using None by (simp add: mark_rows_Suc)
  next
    case (Some g1)
    then have before: "\<forall>r < n. closes_inside w maxs r" using Suc.IH n by simp
    have "length g1 = h * w" using mark_rows_nth(1) [OF Some] assms(3) by simp
    then have "mark_row h w mins maxs n g1 \<noteq> None \<longleftrightarrow> closes_inside w maxs n"
      using mark_row_returns [OF assms(1,2) _ n] by simp
    moreover have "(\<forall>r < Suc n. closes_inside w maxs r)
        \<longleftrightarrow> (\<forall>r < n. closes_inside w maxs r) \<and> closes_inside w maxs n"
      using less_Suc_eq by auto
    ultimately show ?thesis using Some before by (simp add: mark_rows_Suc)
  qed
qed

lemma length_marked [simp]: "length (marked w mins maxs n g) = length g"
  by (simp add: marked_def)

lemma marked_nth:
  "k < length g \<Longrightarrow> marked w mins maxs n g ! k
     = g ! k + (if k < n * w then opens w mins (k div w) (k mod w)
                                   - closes w maxs (k div w) (k mod w) else 0)"
  by (simp add: marked_def)

lemma mark_rows_eq:
  assumes "length mins = h" "length maxs = h" "length g = h * w" "n \<le> h"
  shows "mark_rows h w mins maxs n g
         = (if \<forall>r < n. closes_inside w maxs r then Some (marked w mins maxs n g) else None)"
proof (cases "mark_rows h w mins maxs n g")
  case None
  then show ?thesis using mark_rows_returns [OF assms] by simp
next
  case (Some g')
  have "g' = marked w mins maxs n g"
    by (rule nth_equalityI) (simp_all add: mark_rows_nth [OF Some] marked_nth)
  then show ?thesis using Some mark_rows_returns [OF assms] by simp
qed

subsection \<open>Rasterizer: what a call adds to a marker grid\<close>

lemma in_bounds_iff:
  "in_bounds trav b poly \<longleftrightarrow> (\<forall>r < height b. closes_inside (width b) (row_maxs trav b poly) r)"
  by (auto simp: in_bounds_def list_all_iff)

text \<open>
  A call of \<open>addPolygon\<close> on a well-formed builder either makes a closing write outside
  its row, or returns the marker grid with one increment and one decrement at most in
  every row, and the scratch buffers holding the extreme columns of every row.
\<close>

lemma addPolygon_eq:
  assumes "well_formed b" "length g = height b * width b"
  shows "addPolygon trav b g poly
         = (if in_bounds trav b poly
            then Some (marked (width b) (row_mins trav b poly) (row_maxs trav b poly) (height b) g,
                       b\<lparr>mincols := row_mins trav b poly, maxcols := row_maxs trav b poly\<rparr>)
            else None)"
proof -
  have len: "length (mincols b) = height b" "length (maxcols b) = height b"
    using assms(1) by (simp_all add: well_formed_def)
  have rows: "mark_rows (height b) (width b) (row_mins trav b poly) (row_maxs trav b poly) (height b) g
      = (if in_bounds trav b poly
         then Some (marked (width b) (row_mins trav b poly) (row_maxs trav b poly) (height b) g)
         else None)"
    unfolding in_bounds_iff
    by (rule mark_rows_eq) (simp_all add: len assms(2))
  show ?thesis
    unfolding addPolygon_def scan_edges_eq [OF len] by (simp add: rows)
qed

lemma marked_contribution:
  assumes "length g = height b * width b" "k < length g"
  shows "marked (width b) (row_mins trav b poly) (row_maxs trav b poly) (height b) g ! k
         = g ! k + contribution trav b poly k"
  using assms by (simp add: marked_nth contribution_def)

lemma row_cols_mem:
  "x \<in> set (row_cols h r cells) \<Longrightarrow> (x, int r) \<in> set cells"
  by (auto simp: row_cols_def)

lemma row_maxs_small:
  assumes "r < length (maxcols b)"
      and "\<forall>cell \<in> set (edge_cells trav b poly). fst cell < 2 ^ 31 - 1"
  shows "row_maxs trav b poly ! r < 2 ^ 31 - 1"
proof -
  have "\<forall>x \<in> set (row_cols (height b) r (edge_cells trav b poly)). x < 2 ^ 31 - 1"
  proof
    fix x assume "x \<in> set (row_cols (height b) r (edge_cells trav b poly))"
    then have "(x, int r) \<in> set (edge_cells trav b poly)" by (rule row_cols_mem)
    then show "x < 2 ^ 31 - 1" using assms(2) by fastforce
  qed
  then show ?thesis unfolding row_maxs_nth [OF assms(1)] by (simp add: fold_max_less_iff)
qed

lemma closes_inside_small:
  assumes "maxs ! r < 2 ^ 31 - 1"
  shows "closes_inside w maxs r"
proof -
  have "nat (maxs ! r) + 1 < w" if "0 \<le> maxs ! r \<and> int32 (maxs ! r + 1) < int32_t w"
  proof -
    have "int32 (maxs ! r + 1) = maxs ! r + 1" using that assms by (intro int32_small) simp_all
    then show ?thesis using that int32_t_le [of w] by linarith
  qed
  then show ?thesis by (auto simp: closes_inside_def)
qed

text \<open>
  As long as no traversed column is \<open>2 ^ 31 - 1\<close>, every access of the scratch buffers
  uses a row in \<open>[0, height)\<close> and every write to the marker grid hits a cell of the grid.
\<close>

lemma in_bounds_small:
  assumes "length (maxcols b) = height b"
      and "\<forall>cell \<in> set (edge_cells trav b poly). fst cell < 2 ^ 31 - 1"
  shows "in_bounds trav b poly"
  unfolding in_bounds_iff
  using closes_inside_small row_maxs_small [OF _ assms(2)] assms(1) by simp

lemma addPolygon_inside:
  assumes "well_formed b" and "length g = height b * width b"
      and "\<forall>cell \<in> set (edge_cells trav b poly). fst cell < 2 ^ 31 - 1"
  shows "addPolygon trav b g poly
         = Some (marked (width b) (row_mins trav b poly) (row_maxs trav b poly) (height b) g,
                 b\<lparr>mincols := row_mins trav b poly, maxcols := row_maxs trav b poly\<rparr>)"
proof -
  have "length (maxcols b) = height b" using assms(1) by (simp add: well_formed_def)
  then show ?thesis
    using addPolygon_eq [OF assms(1,2)] in_bounds_small [OF _ assms(3)] by simp
qed

lemma sum_opens:
  "(\<Sum>c < w. opens w mins r c) = (if 0 \<le> mins ! r \<and> mins ! r < int32_t w then 1 else 0)"
proof (cases "0 \<le> mins ! r \<and> mins ! r < int32_t w")
  case True
  then have a: "nat (mins ! r) < w" using int32_t_le [of w] by linarith
  have "(\<Sum>c < w. opens w mins r c) = (\<Sum>c \<in> {..<w}. if c = nat (mins ! r) then 1 else 0)"
    using True by (intro sum.cong) (auto simp: opens_def)
  also have "\<dots> = 1" using a by (simp add: sum.delta)
  finally show ?thesis using True by simp
next
  case False
  then have "opens w mins r c = 0" for c by (auto simp: opens_def)
  then show ?thesis using False by simp
qed

lemma sum_closes:
  assumes "closes_inside w maxs r"
  shows "(\<Sum>c < w. closes w maxs r c)
         = (if 0 \<le> maxs ! r \<and> int32 (maxs ! r + 1) < int32_t w then 1 else 0)"
proof (cases "0 \<le> maxs ! r \<and> int32 (maxs ! r + 1) < int32_t w")
  case True
  then have a: "nat (maxs ! r) + 1 < w" using assms by (simp add: closes_inside_def)
  have "(\<Sum>c < w. closes w maxs r c) = (\<Sum>c \<in> {..<w}. if c = nat (maxs ! r) + 1 then 1 else 0)"
    using True by (intro sum.cong) (auto simp: closes_def)
  also have "\<dots> = 1" using a by (simp add: sum.delta)
  finally show ?thesis using True by simp
next
  case False
  then have "closes w maxs r c = 0" for c by (auto simp: closes_def)
  then show ?thesis using False by simp
qed

lemma marked_row_sum:
  assumes "length g = h * w" "r < h" "closes_inside w maxs r"
  shows "row_sum w (marked w mins maxs h g) r - row_sum w g r
         = (if 0 \<le> mins ! r \<and> mins ! r < int32_t w then 1 else 0)
         - (if 0 \<le> maxs ! r \<and> int32 (maxs ! r + 1) < int32_t w then 1 else 0)"
proof -
  have cell: "marked w mins maxs h g ! (r * w + c) = g ! (r * w + c) + opens w mins r c - closes w maxs r c"
    if "c < w" for c
  proof -
    have k: "r * w + c < length g" using row_inside [OF assms(1,2) that] by (simp add: mult.commute)
    have "r * w + c < h * w" using k assms(1) by simp
    then show ?thesis using marked_nth [OF k, of w mins maxs h] that by simp
  qed
  have "row_sum w (marked w mins maxs h g) r
        = (\<Sum>c < w. g ! (r * w + c) + opens w mins r c - closes w maxs r c)"
    unfolding row_sum_def by (intro sum.cong) (simp_all add: cell)
  also have "\<dots> = row_sum w g r + (\<Sum>c < w. opens w mins r c) - (\<Sum>c < w. closes w maxs r c)"
    by (simp add: row_sum_def sum.distrib sum_subtractf)
  finally show ?thesis by (simp add: sum_opens sum_closes [OF assms(3)])
qed

subsection \<open>Rasterizer: polygons outside the grid\<close>

lemma marked_id:
  assumes "length g = h * w"
      and "\<And>r. r < h \<Longrightarrow> \<not> (0 \<le> mins ! r \<and> mins ! r < int32_t w)"
      and "\<And>r. r < h \<Longrightarrow> \<not> (0 \<le> maxs ! r \<and> int32 (maxs ! r + 1) < int32_t w)"
  shows "marked w mins maxs h g = g"
proof (rule nth_equalityI)
  show "length (marked w mins maxs h g) = length g" by simp
next
  fix k assume "k < length (marked w mins maxs h g)"
  then have k: "k < length g" by simp
  then have "k < h * w" using assms(1) by simp
  then have r: "k div w < h" by (rule less_mult_imp_div_less)
  have "opens w mins (k div w) (k mod w) = 0" "closes w maxs (k div w) (k mod w) = 0"
    using assms(2) [OF r] assms(3) [OF r] by (auto simp: opens_def closes_def)
  then show "marked w mins maxs h g ! k = g ! k" using k by (simp add: marked_nth)
qed

lemma build_scratch:
  "grid_values (build (b\<lparr>mincols := m, maxcols := n\<rparr>)) = grid_values (build b)"
  by (simp add: build_def Let_def cong: if_cong)

text \<open>
  A polygon none of whose traversed cells lies in \<open>[0, width) \<times> [0, height)\<close>, and
  whose traversal stays below column \<open>2 ^ 31 - 1\<close>, contributes nothing: rasterizing it
  leaves the marker grid as it was.
\<close>

lemma addPolygon_outside:
  assumes wf: "well_formed b" and g: "length g = height b * width b"
      and out: "\<forall>cell \<in> set (edge_cells trav b poly).
                  \<not> (0 \<le> fst cell \<and> fst cell < int (width b) \<and> 0 \<le> snd cell \<and> snd cell < int (height b))"
      and small: "\<forall>cell \<in> set (edge_cells trav b poly). fst cell < 2 ^ 31 - 1"
  shows "addPolygon trav b g poly
         = Some (g, b\<lparr>mincols := row_mins trav b poly, maxcols := row_maxs trav b poly\<rparr>)"
proof -
  let ?cells = "edge_cells trav b poly"
  let ?mins = "row_mins trav b poly" and ?maxs = "row_maxs trav b poly"
  have len: "length (mincols b) = height b" "length (maxcols b) = height b"
    using wf by (simp_all add: well_formed_def)
  have col: "x < 0 \<or> int (width b) \<le> x" if "x \<in> set (row_cols (height b) r ?cells)" "r < height b" for x r
  proof -
    have "(x, int r) \<in> set ?cells" using that(1) by (rule row_cols_mem)
    then show ?thesis using out that(2) by fastforce
  qed
  have mins: "\<not> (0 \<le> ?mins ! r \<and> ?mins ! r < int32_t (width b))" if r: "r < height b" for r
  proof
    assume a: "0 \<le> ?mins ! r \<and> ?mins ! r < int32_t (width b)"
    have eq: "?mins ! r = fold min (row_cols (height b) r ?cells) (int32_t (width b))"
      using row_mins_nth [of r b trav poly] r len by simp
    from a obtain x where x: "x \<in> set (row_cols (height b) r ?cells)" "x < int32_t (width b)"
      unfolding eq fold_min_less_iff by auto
    then have "x < 0" using col [OF x(1) r] int32_t_le [of "width b"] by linarith
    then have "?mins ! r < 0"
      unfolding eq fold_min_less_iff using x(1) by auto
    then show False using a by simp
  qed
  have maxs: "\<not> (0 \<le> ?maxs ! r \<and> int32 (?maxs ! r + 1) < int32_t (width b))" if r: "r < height b" for r
  proof
    assume a: "0 \<le> ?maxs ! r \<and> int32 (?maxs ! r + 1) < int32_t (width b)"
    have eq: "?maxs ! r = fold max (row_cols (height b) r ?cells) (- 1)"
      using row_maxs_nth [of r b trav poly] r len by simp
    have top: "?maxs ! r < 2 ^ 31 - 1"
      using row_maxs_small [OF _ small, of r] r len by simp
    have wrap: "int32 (?maxs ! r + 1) = ?maxs ! r + 1"
      using a top by (intro int32_small) simp_all
    from a obtain x where x: "x \<in> set (row_cols (height b) r ?cells)" "0 \<le> x"
      unfolding eq fold_max_ge_iff by auto
    then have "int (width b) \<le> x" using col [OF x(1) r] by linarith
    then have "int (width b) \<le> ?maxs ! r"
      unfolding eq fold_max_ge_iff using x(1) by auto
    then show False using a wrap int32_t_le [of "width b"] by linarith
  qed
  have "marked (width b) ?mins ?maxs (height b) g = g"
    using g mins maxs by (rule marked_id)
  then show ?thesis using addPolygon_inside [OF wf g small] by simp
qed

lemma outside_polygon_no_coverage:
  assumes "well_formed b"
      and "\<forall>cell \<in> set (edge_cells trav b poly).
             \<not> (0 \<le> fst cell \<and> fst cell < int (width b) \<and> 0 \<le> snd cell \<and> snd cell < int (height b))"
      and "\<forall>cell \<in> set (edge_cells trav b poly). fst cell < 2 ^ 31 - 1"
  shows "map_option (\<lambda>b'. (occupied_grid b', invisible_grid b', grid_values (build b')))
           (mark_occupied trav poly b)
         = Some (occupied_grid b, invisible_grid b, grid_values (build b))"
    and "map_option (\<lambda>b'. (occupied_grid b', invisible_grid b', grid_values (build b')))
           (mark_invisible trav poly b)
         = Some (occupied_grid b, invisible_grid b, grid_values (build b))"
proof -
  have len: "length (occupied_grid b) = height b * width b"
    "length (invisible_grid b) = height b * width b"
    using assms(1) by (simp_all add: well_formed_def)
  have same: "b\<lparr>mincols := m, maxcols := n, occupied_grid := occupied_grid b\<rparr> = b\<lparr>mincols := m, maxcols := n\<rparr>"
    "b\<lparr>mincols := m, maxcols := n, invisible_grid := invisible_grid b\<rparr> = b\<lparr>mincols := m, maxcols := n\<rparr>"
    for m n
    by simp_all
  show "map_option (\<lambda>b'. (occupied_grid b', invisible_grid b', grid_values (build b')))
           (mark_occupied trav poly b)
         = Some (occupied_grid b, invisible_grid b, grid_values (build b))"
    unfolding mark_occupied_def addPolygon_outside [OF assms(1) len(1) assms(2,3)]
    by (simp add: same build_scratch)
  show "map_option (\<lambda>b'. (occupied_grid b', invisible_grid b', grid_values (build b')))
           (mark_invisible trav poly b)
         = Some (occupied_grid b, invisible_grid b, grid_values (build b))"
    unfolding mark_invisible_def addPolygon_outside [OF assms(1) len(2) assms(2,3)]
    by (simp add: same build_scratch)
qed

text \<open>
  C7. A polygon whose image under \<open>transformToPixel\<close> lies entirely outside
  \<open>[0, width) \<times> [0, height)\<close> is to contribute no coverage to any cell, so that after
  the next \<open>build\<close> every value is as if the polygon had never been added. The code does
  this for every polygon whose traversal stays below column \<open>2 ^ 31 - 1\<close>
  (\<open>outside_polygon_no_coverage\<close>), and not for a polygon so far to the right that its
  traversal visits that column in a row of the grid: there the sum of the test
  \<^verbatim>\<open>col + 1 < int32_t(width)\<close> overflows, the test passes, and the call writes
  \<open>2 ^ 31\<close> elements past the start of the row. Here: a grid of 2 by 2 cells of 1 m with
  the sensor at the origin, and a triangle with the vertices \<open>(2147483646.5, - 0.5)\<close>,
  \<open>(2147483646.75, - 0.5)\<close> and \<open>(2147483646.5, - 0.25)\<close>. Its pixels are outside the
  grid, all three in the cell \<open>(2147483647, 0)\<close>, and the traversal of an edge yields
  the cell of its start. Neither call of \<open>addPolygon\<close> leaves its marker grid as it
  was: it writes outside it.
\<close>

theorem outside_polygon_marks_outside:
  "map (transformToPixel (OccupancyGridBuilder 1 2 2 100 50 :: 16 word builder))
     [Point (4294967293 / 2) (- (1 / 2)), Point (8589934587 / 4) (- (1 / 2)),
      Point (4294967293 / 2) (- (1 / 4))]
   = [Point (4294967295 / 2) (1 / 2), Point (8589934591 / 4) (1 / 2), Point (4294967295 / 2) (3 / 4)]
   \<and> mark_occupied (\<lambda>x0 y0 x1 y1. [(\<lfloor>x0\<rfloor>, \<lfloor>y0\<rfloor>)])
       [Point (4294967293 / 2) (- (1 / 2)), Point (8589934587 / 4) (- (1 / 2)),
        Point (4294967293 / 2) (- (1 / 4))]
       (OccupancyGridBuilder 1 2 2 100 50 :: 16 word builder) = None
   \<and> mark_invisible (\<lambda>x0 y0 x1 y1. [(\<lfloor>x0\<rfloor>, \<lfloor>y0\<rfloor>)])
       [Point (4294967293 / 2) (- (1 / 2)), Point (8589934587 / 4) (- (1 / 2)),
        Point (4294967293 / 2) (- (1 / 4))]
       (OccupancyGridBuilder 1 2 2 100 50 :: 16 word builder) = None"
proof -
  let ?b = "OccupancyGridBuilder 1 2 2 100 50 :: 16 word builder"
  let ?t = "\<lambda>(x0::real) (y0::real) (x1::real) (y1::real). [(\<lfloor>x0\<rfloor>, \<lfloor>y0\<rfloor>)]"
  let ?poly = "[Point (4294967293 / 2) (- (1 / 2)), Point (8589934587 / 4) (- (1 / 2)),
                Point (4294967293 / 2) (- (1 / 4))]"
  have pix: "transformToPixel ?b (Point (4294967293 / 2) (- (1 / 2))) = Point (4294967295 / 2) (1 / 2)"
    "transformToPixel ?b (Point (8589934587 / 4) (- (1 / 2))) = Point (8589934591 / 4) (1 / 2)"
    "transformToPixel ?b (Point (4294967293 / 2) (- (1 / 4))) = Point (4294967295 / 2) (3 / 4)"
    by (simp_all add: transformToPixel_def OccupancyGridBuilder_def Point_def)
  have fl: "\<lfloor>4294967295 / 2 :: real\<rfloor> = 2147483647" "\<lfloor>8589934591 / 4 :: real\<rfloor> = 2147483647"
    "\<lfloor>1 / 2 :: real\<rfloor> = 0" "\<lfloor>3 / 4 :: real\<rfloor> = 0"
    by linarith+
  have cells: "edge_cells ?t ?b ?poly = [(2147483647, 0), (2147483647, 0), (2147483647, 0)]"
    unfolding edge_cells_def by (simp add: pix upt_rec) (simp add: Point_def fl)
  have "addPolygon ?t ?b g ?poly = None" if "length g = 4" for g :: "int list"
    unfolding addPolygon_def scan_edges_def cells
    using that
    by (simp add: OccupancyGridBuilder_def record_cell_def mark_rows_def mark_row_def
        open_span_def close_span_def int32_t_def int32_def upt_rec)
  then have "mark_occupied ?t ?poly ?b = None" "mark_invisible ?t ?poly ?b = None"
    by (simp_all add: mark_occupied_def mark_invisible_def OccupancyGridBuilder_def)
  then show ?thesis using pix by simp
qed

subsection \<open>Rasterizer: the bounds of the accesses\<close>

text \<open>
  C10. Every write of \<open>addPolygon\<close> into the difference array is to hit an index
  \<open>row * width + col\<close> with \<open>0 \<le> row < height\<close> and \<open>0 \<le> col < width\<close>, and every
  access of the scratch buffers a row in \<open>[0, height)\<close>, for every polygon, however
  far outside the grid. This does not hold for a polygon so far that the traversal visits
  column \<open>2 ^ 31 - 1\<close> in a row of the grid: that column is recorded as the maximum of
  the row; the test \<^verbatim>\<open>col + 1 < int32_t(width)\<close> then overflows, its wrapped sum is
  negative and passes, and the write to \<^verbatim>\<open>grid[width * row + col + 1]\<close> lies
  \<open>2 ^ 31\<close> cells past the start of the row, outside the grid. Here: a grid of 2 by 2
  cells and a traversal that visits the cell \<open>(2147483647, 0)\<close>; the run fails. For every
  traversal that stays below that column it does not (\<open>addPolygon_inside\<close>).
\<close>

theorem addPolygon_out_of_bounds:
  "addPolygon (\<lambda>x0 y0 x1 y1. [(2147483647, 0)])
     (OccupancyGridBuilder 1 2 2 100 50 :: 16 word builder) [0, 0, 0, 0] [Point 2147483646 0]
   = None"
  by (simp add: addPolygon_def scan_edges_def edge_cells_def OccupancyGridBuilder_def
      record_cell_def mark_rows_def mark_row_def open_span_def close_span_def
      int32_t_def int32_def upt_rec)

lemma row_cols_set:
  assumes "h < 2 ^ 31" "r < h"
  shows "set (row_cols h r cells) = {fst cell | cell. cell \<in> set cells \<and> snd cell = int r}"
proof -
  have "int r < int32_t h" using assms by (simp add: int32_t_small)
  then show ?thesis by (force simp: row_cols_def)
qed

subsection \<open>Rasterizer: span closure\<close>

text \<open>
  The claim as stated fails where a span reaches the last column: in a grid of one
  cell, a polygon whose traversal visits that cell is opened with an increment and never
  closed, so the increments and decrements applied to row 0 sum to 1.
\<close>

theorem span_closure_counterexample:
  "touched (edge_cells (\<lambda>x0 y0 x1 y1. [(0, 0)])
       (OccupancyGridBuilder 1 1 1 100 50 :: 16 word builder) [Point 0 0]) 0
   \<and> map_option (\<lambda>res. row_sum 1 (fst res) 0 - row_sum 1 [0] 0)
       (addPolygon (\<lambda>x0 y0 x1 y1. [(0, 0)])
          (OccupancyGridBuilder 1 1 1 100 50 :: 16 word builder) [0] [Point 0 0])
     = Some 1"
  by (simp add: touched_def row_sum_def addPolygon_def scan_edges_def edge_cells_def
      OccupancyGridBuilder_def record_cell_def mark_rows_def mark_row_def open_span_def
      close_span_def int32_t_def int32_def)

text \<open>
  A row whose span starts left of column 0 is opened nowhere and still closed: the
  increments and decrements applied to it sum to \<open>- 1\<close>.
\<close>

lemma span_left_of_grid:
  "map_option fst
     (addPolygon (\<lambda>x0 y0 x1 y1. [(- 1, 0), (0, 0)])
        (OccupancyGridBuilder 1 1 2 100 50 :: 16 word builder) [0, 0] [Point 0 0])
   = Some [0, - 1]"
  by (simp add: addPolygon_def scan_edges_def edge_cells_def OccupancyGridBuilder_def
      record_cell_def mark_rows_def mark_row_def open_span_def close_span_def int32_t_def
      int32_def upt_rec)

text \<open>
  C2, amended. For every call of \<open>addPolygon\<close> none of whose traversed columns is
  \<open>2 ^ 31 - 1\<close>, and every row in \<open>[0, height)\<close> whose traversed columns are all at
  least 0: the call returns, and the increments and decrements it applies to the row sum
  to 0 (every opened span is closed), except when the span starts inside the grid and
  reaches the last column or beyond: then it is opened and deliberately not closed, and
  the sum is 1.
\<close>

theorem addPolygon_span_closure:
  assumes wf: "well_formed b" and g: "length g = height b * width b"
      and hb: "height b < 2 ^ 31" and wb: "width b < 2 ^ 31"
      and r: "r < height b"
      and left: "\<forall>cell \<in> set (edge_cells trav b poly). snd cell = int r \<longrightarrow> 0 \<le> fst cell"
      and small: "\<forall>cell \<in> set (edge_cells trav b poly). fst cell < 2 ^ 31 - 1"
  shows "map_option (\<lambda>res. row_sum (width b) (fst res) r - row_sum (width b) g r)
           (addPolygon trav b g poly)
         = Some (if (\<exists>cell \<in> set (edge_cells trav b poly). snd cell = int r \<and> fst cell < int (width b))
                    \<and> (\<exists>cell \<in> set (edge_cells trav b poly). snd cell = int r \<and> int (width b) \<le> fst cell + 1)
                 then 1 else 0)"
proof -
  let ?cells = "edge_cells trav b poly"
  let ?cols = "row_cols (height b) r ?cells"
  let ?w = "int (width b)"
  let ?mins = "row_mins trav b poly" and ?maxs = "row_maxs trav b poly"
  have len: "r < length (mincols b)" "r < length (maxcols b)"
    using wf r by (simp_all add: well_formed_def)
  have w32: "int32_t (width b) = ?w" using wb by (rule int32_t_small)
  have cols: "set ?cols = {fst cell | cell. cell \<in> set ?cells \<and> snd cell = int r}"
    using hb r by (rule row_cols_set)
  have nonneg: "\<forall>x \<in> set ?cols. 0 \<le> x" using left unfolding cols by auto
  have mins: "?mins ! r = fold min ?cols ?w"
    and maxs: "?maxs ! r = fold max ?cols (- 1)"
    using row_mins_nth [OF len(1), of trav poly] row_maxs_nth [OF len(2), of trav poly] w32
    by simp_all
  have top: "?maxs ! r < 2 ^ 31 - 1" using len(2) small by (rule row_maxs_small)
  have inside: "closes_inside (width b) ?maxs r" using top by (rule closes_inside_small)
  have wrap: "int32 (?maxs ! r + 1) = ?maxs ! r + 1" if "0 \<le> ?maxs ! r"
    using that top by (intro int32_small) simp_all
  have mins0: "0 \<le> fold min ?cols ?w" using nonneg by (simp add: fold_min_ge_iff)
  have opn: "fold min ?cols ?w < ?w \<longleftrightarrow> (\<exists>x \<in> set ?cols. x < ?w)"
    by (simp add: fold_min_less_iff)
  have cls: "0 \<le> fold max ?cols (- 1) \<and> fold max ?cols (- 1) + 1 < ?w
             \<longleftrightarrow> ?cols \<noteq> [] \<and> (\<forall>x \<in> set ?cols. x + 1 < ?w)"
  proof -
    have ne: "(\<exists>x \<in> set ?cols. 0 \<le> x) \<longleftrightarrow> ?cols \<noteq> []"
      using nonneg by (cases ?cols) auto
    have A: "0 \<le> fold max ?cols (- 1) \<longleftrightarrow> ?cols \<noteq> []"
      unfolding fold_max_ge_iff ne by simp
    have "fold max ?cols (- 1) + 1 < ?w \<longleftrightarrow> fold max ?cols (- 1) < ?w - 1" by linarith
    also have "\<dots> \<longleftrightarrow> - 1 < ?w - 1 \<and> (\<forall>x \<in> set ?cols. x < ?w - 1)"
      by (rule fold_max_less_iff)
    also have "\<dots> \<longleftrightarrow> 0 < ?w \<and> (\<forall>x \<in> set ?cols. x + 1 < ?w)"
      by (simp add: less_diff_eq)
    finally have B: "fold max ?cols (- 1) + 1 < ?w \<longleftrightarrow> 0 < ?w \<and> (\<forall>x \<in> set ?cols. x + 1 < ?w)" .
    have C: "0 < ?w" if ne0: "?cols \<noteq> []" and al: "\<forall>x \<in> set ?cols. x + 1 < ?w"
    proof -
      obtain x where x: "x \<in> set ?cols" using ne0 by (cases ?cols) auto
      then have "0 \<le> x" "x + 1 < ?w" using nonneg al by auto
      then show ?thesis by linarith
    qed
    show ?thesis unfolding A B using C by blast
  qed
  have guard: "0 \<le> ?maxs ! r \<and> int32 (?maxs ! r + 1) < int32_t (width b)
               \<longleftrightarrow> ?cols \<noteq> [] \<and> (\<forall>x \<in> set ?cols. x + 1 < ?w)"
    using wrap cls unfolding maxs w32 by auto
  have ex1: "(\<exists>cell \<in> set ?cells. snd cell = int r \<and> fst cell < ?w) \<longleftrightarrow> (\<exists>x \<in> set ?cols. x < ?w)"
    unfolding cols by force
  have ex2: "(\<exists>cell \<in> set ?cells. snd cell = int r \<and> ?w \<le> fst cell + 1) \<longleftrightarrow> (\<exists>x \<in> set ?cols. ?w \<le> x + 1)"
    unfolding cols by force
  have "row_sum (width b) (marked (width b) ?mins ?maxs (height b) g) r - row_sum (width b) g r
        = (if (\<exists>x \<in> set ?cols. x < ?w) then 1 else 0)
          - (if ?cols \<noteq> [] \<and> (\<forall>x \<in> set ?cols. x + 1 < ?w) then 1 else 0)"
    unfolding marked_row_sum [OF g r inside] guard
    unfolding mins w32 using mins0 opn by simp
  also have "\<dots> = (if (\<exists>x \<in> set ?cols. x < ?w) \<and> (\<exists>x \<in> set ?cols. ?w \<le> x + 1) then 1 else 0)"
  proof (cases "?cols \<noteq> [] \<and> (\<forall>x \<in> set ?cols. x + 1 < ?w)")
    case True
    then obtain x where "x \<in> set ?cols" "x + 1 < ?w" by (cases ?cols) auto
    then have "\<exists>x \<in> set ?cols. x < ?w" by (intro bexI [of _ x]) simp_all
    moreover have "\<not> (\<exists>x \<in> set ?cols. ?w \<le> x + 1)" using True by (simp add: not_le)
    ultimately show ?thesis using True by simp
  next
    case False
    show ?thesis
    proof (cases "?cols = []")
      case True
      then show ?thesis by simp
    next
      case ne: False
      then have "\<exists>x \<in> set ?cols. ?w \<le> x + 1" using False by (simp add: not_less)
      then show ?thesis using False by simp
    qed
  qed
  finally have sum: "row_sum (width b) (marked (width b) ?mins ?maxs (height b) g) r - row_sum (width b) g r
        = (if (\<exists>cell \<in> set ?cells. snd cell = int r \<and> fst cell < ?w)
              \<and> (\<exists>cell \<in> set ?cells. snd cell = int r \<and> ?w \<le> fst cell + 1) then 1 else 0)"
    unfolding ex1 ex2 .
  show ?thesis
    unfolding addPolygon_inside [OF wf g small] using sum by simp
qed

theorem addPolygon_span_closure_witness:
  "well_formed (OccupancyGridBuilder 1 1 3 100 50 :: 16 word builder)
   \<and> map_option (\<lambda>res. row_sum 3 (fst res) 0 - row_sum 3 [0, 0, 0] 0)
       (addPolygon (\<lambda>x0 y0 x1 y1. [(0, 0), (1, 0)])
          (OccupancyGridBuilder 1 1 3 100 50 :: 16 word builder) [0, 0, 0] [Point 0 0])
     = Some 0"
proof -
  let ?b = "OccupancyGridBuilder 1 1 3 100 50 :: 16 word builder"
  let ?t = "\<lambda>(x0::real) (y0::real) (x1::real) (y1::real). [(0::int, 0::int), (1, 0)]"
  have wf: "well_formed ?b" by (simp add: well_formed_def OccupancyGridBuilder_def)
  have len: "length [0, 0, 0 :: int] = height ?b * width ?b" by (simp add: OccupancyGridBuilder_def)
  have h: "height ?b < 2 ^ 31" and w: "width ?b < 2 ^ 31" and r: "0 < height ?b"
    by (simp_all add: OccupancyGridBuilder_def)
  have cells: "edge_cells ?t ?b [Point 0 0] = [(0, 0), (1, 0)]" by (simp add: edge_cells_def)
  have left: "\<forall>cell \<in> set (edge_cells ?t ?b [Point 0 0]). snd cell = int 0 \<longrightarrow> 0 \<le> fst cell"
    unfolding cells by simp
  have small: "\<forall>cell \<in> set (edge_cells ?t ?b [Point 0 0]). fst cell < 2 ^ 31 - 1"
    unfolding cells by simp
  show ?thesis
    using wf addPolygon_span_closure [OF wf len h w r left small]
    unfolding cells by (simp add: OccupancyGridBuilder_def)
qed

subsection \<open>Visibility polygon builder: the corner walks\<close>

lemma first_corner_None:
  assumes "\<And>i. theta (corner i) < minang"
  shows "first_corner corner minang i = None"
proof (rule ccontr)
  assume "first_corner corner minang i \<noteq> None"
  then obtain y where y: "first_corner corner minang i = Some y" by auto
  have "(\<forall>j. theta (corner j) < minang) \<longrightarrow> False"
    using y
  proof (induction rule: first_corner.raw_induct [rotated 1, consumes 1])
    case (1 first_corner corner minang i y)
    show ?case
    proof
      assume all: "\<forall>j. theta (corner j) < minang"
      then have "\<not> minang \<le> theta (corner i)" by (simp add: not_le)
      then have "first_corner corner minang (i + 1) = Some y" using 1(2) by simp
      from 1(1) [OF this] all show False by simp
    qed
  qed
  then show False using assms by simp
qed

lemma min_element_mem: "min_element cmp m xs \<in> set (m # xs)"
  by (induction xs arbitrary: m) auto

lemma max_element_mem: "max_element cmp m xs \<in> set (m # xs)"
  by (induction xs arbitrary: m) auto

lemma minmax_element_mem:
  "minmax_element cmp xs = Some (a, z) \<Longrightarrow> a \<in> set xs \<and> z \<in> set xs"
  using min_element_mem [of cmp] max_element_mem [of cmp]
  by (auto simp: minmax_element_def split: list.splits)

lemma minmax_element_None: "minmax_element cmp xs = None \<longleftrightarrow> xs = []"
  by (simp add: minmax_element_def split: list.splits)

lemma minmaxp_mem: "minmaxp poly = Some (a, z) \<Longrightarrow> a \<in> set poly \<and> z \<in> set poly"
  by (auto simp: minmaxp_def split: option.splits if_splits dest: minmax_element_mem)

lemma minmaxp_None: "minmaxp poly = None \<longleftrightarrow> poly = []"
  by (cases poly) (auto simp: minmaxp_def minmax_element_def)

lemma theta_corners_le:
  assumes "0 < realw b" "0 < realh b"
  shows "theta (corners b i) \<le> theta (corners b 3)"
proof -
  let ?a = "arctan (realh b / realw b)"
  have a: "0 < ?a" "?a < pi / 2"
    using assms arctan_ubound [of "realh b / realw b"] by (simp_all add: zero_less_arctan_iff)
  have t3: "theta (corners b 3) = pi - ?a"
    using assms by (simp add: theta_def corners_def Point_def atan2_def arctan_minus)
  have "i mod 4 = 0 \<or> i mod 4 = 1 \<or> i mod 4 = 2 \<or> i mod 4 = 3" by arith
  then show ?thesis
  proof (elim disjE)
    assume "i mod 4 = 0"
    then have "theta (corners b i) = ?a - pi"
      using assms by (simp add: theta_def corners_def Point_def atan2_def arctan_minus)
    then show ?thesis using a t3 pi_gt_zero by linarith
  next
    assume "i mod 4 = 1"
    then have "theta (corners b i) = - ?a"
      using assms by (simp add: theta_def corners_def Point_def atan2_def arctan_minus)
    then show ?thesis using a t3 pi_gt_zero by linarith
  next
    assume "i mod 4 = 2"
    then have "theta (corners b i) = ?a"
      using assms by (simp add: theta_def corners_def Point_def atan2_def arctan_minus)
    then show ?thesis using a t3 pi_gt_zero by linarith
  next
    assume "i mod 4 = 3"
    then have "theta (corners b i) = pi - ?a"
      using assms by (simp add: theta_def corners_def Point_def atan2_def arctan_minus)
    then show ?thesis using t3 by simp
  qed
qed

lemma makeInvisibleArea_no_return:
  assumes "0 < realw b" "0 < realh b" "poly \<noteq> []"
      and "\<forall>v \<in> set poly. theta (corners b 3) < theta v"
  shows "makeInvisibleArea b poly = None"
proof -
  obtain minp maxp where mm: "minmaxp poly = Some (minp, maxp)"
    using assms(3) minmaxp_None [of poly] by (cases "minmaxp poly") auto
  then have "minp \<in> set poly" using minmaxp_mem by blast
  then have "theta (corners b 3) < theta minp" using assms(4) by simp
  then have "theta (corners b i) < theta minp" for i
    using theta_corners_le [OF assms(1,2), of i] by simp
  then have "first_corner (corners b) (theta minp) 0 = None" by (rule first_corner_None)
  then show ?thesis by (simp add: makeInvisibleArea_def mm span_angles_def Let_def)
qed

lemma realwh10: "realw (OccupancyGridBuilder 1 10 10 100 50 :: 16 word builder) = 5"
  "realh (OccupancyGridBuilder 1 10 10 100 50 :: 16 word builder) = 5"
  by (simp_all add: realw_def realh_def OccupancyGridBuilder_def)

lemma box_behind_sensor_no_return:
  "makeInvisibleArea (OccupancyGridBuilder 1 10 10 100 50 :: 16 word builder)
     [Point (- 3) (1 / 2), Point (- 2) (1 / 2), Point (- 2) 1, Point (- 3) 1] = None"
proof -
  let ?b = "OccupancyGridBuilder 1 10 10 100 50 :: 16 word builder"
  have w: "0 < realw ?b" and h: "0 < realh ?b" by (simp_all add: realwh10)
  have c3: "theta (corners ?b 3) = 3 * pi / 4"
    by (simp add: theta_def corners_def Point_def atan2_def realwh10 arctan_minus arctan_one)
  have lt: "arctan x < pi / 4" if "x < 1" for x :: real
    using that arctan_less_iff [of x 1] by (simp add: arctan_one)
  have "\<forall>v \<in> set [Point (- 3) (1 / 2), Point (- 2) (1 / 2), Point (- 2) 1, Point (- 3) 1].
          theta (corners ?b 3) < theta v"
    unfolding c3 using lt [of "1 / 6"] lt [of "1 / 4"] lt [of "1 / 2"] lt [of "1 / 3"]
    by (simp add: theta_def Point_def atan2_def arctan_minus)
  then show ?thesis by (intro makeInvisibleArea_no_return w h) simp_all
qed

text \<open>
  C5. \<open>makeInvisibleArea\<close> is to return a shadow polygon for every non-empty occupied
  polygon, both corner walks ending for every minimum and maximum bearing. It does not:
  the first corner walk compares the raw bearing of each rectangle corner with the
  minimum bearing and, unlike the second walk, never adds \<open>2\<pi>\<close> per wrap; when the
  minimum bearing exceeds the bearing of the top left corner, the greatest of the four,
  no corner ever satisfies the test and the loop does not end. Here: a grid of 10 by 10
  cells of 1 m and an obstacle of 1 m by 0.5 m, 2 m behind the sensor and 0.5 m to its
  left; the call does not return.
\<close>

theorem makeInvisibleArea_diverges:
  "makeInvisibleArea (OccupancyGridBuilder 1 10 10 100 50 :: 16 word builder)
     [Point (- 3) (1 / 2), Point (- 2) (1 / 2), Point (- 2) 1, Point (- 3) 1] = None"
  by (rule box_behind_sensor_no_return)

subsection \<open>Visibility polygon builder: the bearing span\<close>

lemma atan2_bounds: "- pi < atan2 y x \<and> atan2 y x \<le> pi"
proof -
  have b: "- (pi / 2) < arctan (y / x)" "arctan (y / x) < pi / 2"
    by (rule arctan_lbound, rule arctan_ubound)
  consider "0 < x" | "x < 0" "0 \<le> y" | "x < 0" "y < 0" | "x = 0"
    by linarith
  then show ?thesis
  proof cases
    case 1
    then show ?thesis using b pi_gt_zero by (simp add: atan2_def)
  next
    case 2
    then have "y / x \<le> 0" by (simp add: divide_nonneg_neg)
    then have "arctan (y / x) \<le> 0" by (simp add: arctan_le_zero_iff)
    then show ?thesis using 2 b pi_gt_zero by (simp add: atan2_def)
  next
    case 3
    then have "0 < y / x" by (simp add: divide_neg_neg)
    then have "0 < arctan (y / x)" by (simp add: zero_less_arctan_iff)
    then show ?thesis using 3 b pi_gt_zero by (simp add: atan2_def)
  next
    case 4
    have "- pi < pi / 2 \<and> - pi < - (pi / 2) \<and> - (pi / 2) \<le> pi \<and> pi / 2 \<le> pi \<and> - pi < 0"
      using pi_gt_zero by linarith
    then show ?thesis using 4 by (auto simp: atan2_def)
  qed
qed

lemma theta_bounds: "- pi < theta p" "theta p \<le> pi"
  using atan2_bounds [of "p_y p" "p_x p"] by (simp_all add: theta_def)

lemma adjust_range: "0 \<le> adjust (theta p)" "adjust (theta p) < 2 * pi"
  using theta_bounds [of p] pi_gt_zero by (auto simp: adjust_def)

lemma min_element_key:
  fixes f :: "'a \<Rightarrow> real"
  shows "\<forall>v \<in> set (m # xs). f (min_element (\<lambda>p q. f p < f q) m xs) \<le> f v"
proof (induction xs arbitrary: m)
  case Nil
  show ?case by simp
next
  case (Cons x xs)
  let ?m' = "if f x < f m then x else m"
  have IH: "\<forall>v \<in> set (?m' # xs). f (min_element (\<lambda>p q. f p < f q) ?m' xs) \<le> f v"
    by (rule Cons.IH)
  have le: "f (min_element (\<lambda>p q. f p < f q) ?m' xs) \<le> f ?m'" using IH by simp
  have "f ?m' \<le> f m" "f ?m' \<le> f x" by auto
  then show ?case using IH le by auto
qed

lemma max_element_key:
  fixes f :: "'a \<Rightarrow> real"
  shows "\<forall>v \<in> set (m # xs). f v \<le> f (max_element (\<lambda>p q. f p < f q) m xs)"
proof (induction xs arbitrary: m)
  case Nil
  show ?case by simp
next
  case (Cons x xs)
  let ?m' = "if f x < f m then m else x"
  have IH: "\<forall>v \<in> set (?m' # xs). f v \<le> f (max_element (\<lambda>p q. f p < f q) ?m' xs)"
    by (rule Cons.IH)
  have le: "f ?m' \<le> f (max_element (\<lambda>p q. f p < f q) ?m' xs)" using IH by simp
  have "f m \<le> f ?m'" "f x \<le> f ?m'" by auto
  then show ?case using IH le by auto
qed

lemma minmax_element_key:
  fixes f :: "'a \<Rightarrow> real"
  assumes "minmax_element (\<lambda>p q. f p < f q) xs = Some (a, z)"
  shows "\<forall>v \<in> set xs. f a \<le> f v \<and> f v \<le> f z"
proof (cases xs)
  case Nil
  then show ?thesis by simp
next
  case (Cons x rest)
  then have "a = min_element (\<lambda>p q. f p < f q) x rest" "z = max_element (\<lambda>p q. f p < f q) x rest"
    using assms by (simp_all add: minmax_element_def)
  then show ?thesis
    using min_element_key [where f = f and m = x and xs = rest]
      max_element_key [where f = f and m = x and xs = rest] Cons by simp
qed

lemma minmaxp_remap:
  assumes "minmax_element (\<lambda>p q. theta p < theta q) poly = Some (minp0, maxp0)"
      and "theta maxp0 - theta minp0 > pi"
  shows "minmaxp poly = minmax_element (\<lambda>p q. adjust (theta p) < adjust (theta q)) poly"
  using assms by (simp add: minmaxp_def)

lemma minmaxp_keep:
  assumes "minmax_element (\<lambda>p q. theta p < theta q) poly = Some (minp0, maxp0)"
      and "\<not> theta maxp0 - theta minp0 > pi"
  shows "minmaxp poly = Some (minp0, maxp0)"
  using assms by (simp add: minmaxp_def)

lemma span_angles_width:
  assumes "adjust (theta minp) \<le> adjust (theta maxp)"
  shows "fst (span_angles minp maxp) = theta minp"
    and "snd (span_angles minp maxp) - fst (span_angles minp maxp)
         = adjust (theta maxp) - adjust (theta minp)"
proof -
  show "fst (span_angles minp maxp) = theta minp" by (simp add: span_angles_def Let_def)
  have b: "- pi < theta minp" "theta minp \<le> pi" "- pi < theta maxp" "theta maxp \<le> pi"
    by (rule theta_bounds)+
  consider "theta minp < 0" "theta maxp < 0" | "theta minp < 0" "0 \<le> theta maxp"
    | "0 \<le> theta minp" "theta maxp < 0" | "0 \<le> theta minp" "0 \<le> theta maxp"
    by linarith
  then show "snd (span_angles minp maxp) - fst (span_angles minp maxp)
         = adjust (theta maxp) - adjust (theta minp)"
  proof cases
    case 1
    then show ?thesis using assms by (simp add: span_angles_def Let_def adjust_def)
  next
    case 2
    then have False using assms b by (simp add: adjust_def)
    then show ?thesis ..
  next
    case 3
    then have "theta maxp < theta minp" by linarith
    then show ?thesis using 3 by (simp add: span_angles_def Let_def adjust_def)
  next
    case 4
    then show ?thesis using assms by (simp add: span_angles_def Let_def adjust_def)
  qed
qed

lemma in_wedge_adjust:
  assumes "adjust (theta minp) \<le> adjust (theta v)" "adjust (theta v) \<le> adjust (theta maxp)"
  shows "in_wedge (theta minp) (theta minp + (adjust (theta maxp) - adjust (theta minp))) (theta v)"
proof -
  obtain j1 :: int where j1: "adjust (theta minp) = theta minp + 2 * pi * of_int j1"
    by (cases "theta minp < 0") (auto simp: adjust_def intro: that [of 1] that [of 0])
  obtain j :: int where j: "adjust (theta v) = theta v + 2 * pi * of_int j"
    by (cases "theta v < 0") (auto simp: adjust_def intro: that [of 1] that [of 0])
  have "theta minp \<le> theta v + 2 * pi * of_int (j - j1)"
    using assms(1) unfolding j1 j by (simp add: algebra_simps)
  moreover have "theta v + 2 * pi * of_int (j - j1) \<le> theta minp + (adjust (theta maxp) - adjust (theta minp))"
    using assms(2) unfolding j1 j by (simp add: algebra_simps)
  ultimately show ?thesis unfolding in_wedge_def by blast
qed

lemma in_wedge_adjusted:
  assumes "in_wedge lo hi (theta v)"
  shows "in_wedge lo hi (adjust (theta v))"
proof -
  obtain k :: int where k: "lo \<le> theta v + 2 * pi * of_int k" "theta v + 2 * pi * of_int k \<le> hi"
    using assms unfolding in_wedge_def by blast
  show ?thesis
  proof (cases "theta v < 0")
    case True
    then have a: "adjust (theta v) = theta v + 2 * pi" by (simp add: adjust_def)
    have "adjust (theta v) + 2 * pi * of_int (k - 1) = theta v + 2 * pi * of_int k"
      unfolding a by (simp add: algebra_simps)
    then show ?thesis unfolding in_wedge_def using k by metis
  next
    case False
    then have "adjust (theta v) = theta v" by (simp add: adjust_def)
    then show ?thesis using assms by simp
  qed
qed

lemma wedge_width_ge:
  assumes a: "in_wedge lo hi a" and z: "in_wedge lo hi z"
      and d: "0 \<le> z - a" "z - a \<le> pi"
  shows "z - a \<le> hi - lo"
proof -
  obtain k :: int where k: "lo \<le> a + 2 * pi * of_int k" "a + 2 * pi * of_int k \<le> hi"
    using a unfolding in_wedge_def by blast
  obtain m :: int where m: "lo \<le> z + 2 * pi * of_int m" "z + 2 * pi * of_int m \<le> hi"
    using z unfolding in_wedge_def by blast
  show ?thesis
  proof (cases "k \<le> m")
    case True
    then have "(of_int k :: real) \<le> of_int m" by simp
    then have "2 * pi * of_int k \<le> 2 * pi * of_int m"
      using pi_gt_zero by (intro mult_left_mono) simp_all
    then show ?thesis using k(1) m(2) by linarith
  next
    case False
    then have "m + 1 \<le> k" by simp
    then have "(of_int m :: real) + 1 \<le> of_int k" by (metis of_int_1 of_int_add of_int_le_iff)
    then have "2 * pi * (of_int m + 1) \<le> 2 * pi * of_int k"
      using pi_gt_zero by (intro mult_left_mono) simp_all
    then have "2 * pi * of_int m + 2 * pi \<le> 2 * pi * of_int k" by (simp add: algebra_simps)
    then show ?thesis using k(2) m(1) d by linarith
  qed
qed

lemma corner_walk_shape:
  assumes "corner_walk corner maxang i res = Some (j, res')"
  shows "\<exists>cs. res' = res @ cs"
proof -
  have "\<forall>j res'. r = (j, res') \<longrightarrow> (\<exists>cs. res' = res @ cs)"
    if "corner_walk corner maxang i res = Some r" for r
    using that
  proof (induction rule: corner_walk.raw_induct [rotated 1, consumes 1])
    case (1 corner_walk corner maxang i res r)
    show ?case
    proof (cases "maxang \<le> theta (corner i) + 2 * pi * real (i div 4)")
      case True
      then show ?thesis using 1(2) by auto
    next
      case False
      then have "corner_walk corner maxang (i + 1) (res @ [corner i]) = Some r" using 1(2) by simp
      from 1(1) [OF this] show ?thesis by auto
    qed
  qed
  then show ?thesis using assms by blast
qed

lemma makeInvisibleArea_ends:
  assumes "minmaxp poly = Some (minp, maxp)" "makeInvisibleArea b poly = Some (Inr res)"
  shows "hd res = minp \<and> last res = maxp"
proof -
  obtain minang maxang where sa: "span_angles minp maxp = (minang, maxang)"
    by (cases "span_angles minp maxp")
  from assms obtain i j res' where
    w: "corner_walk (corners b) maxang i [minp, projection b minp i] = Some (j, res')"
    and r: "res = res' @ [projection b maxp j, maxp]"
    by (auto simp: makeInvisibleArea_def sa split: option.splits prod.splits)
  from corner_walk_shape [OF w] obtain cs where "res' = [minp, projection b minp i] @ cs" ..
  then show ?thesis using r by simp
qed

lemma pentagon_bearings:
  "theta (Point (- 1) (- 1)) = - (3 * pi / 4)" "theta (Point 1 (- 1)) = - (pi / 4)"
  "theta (Point 2 0) = 0" "theta (Point 1 1) = pi / 4" "theta (Point (- 1) 1) = 3 * pi / 4"
  by (simp_all add: theta_def Point_def atan2_def arctan_minus arctan_one)


text \<open>
  The claim as stated fails for a hull that surrounds the sensor. The bearings of this
  pentagon run from \<open>- 3\<pi>/4\<close> to \<open>3\<pi>/4\<close>, a span of \<open>3\<pi>/2\<close>, which exceeds \<open>\<pi>\<close>; the pair
  re-selected on the remapped bearings spans the wedge from 0 to \<open>7\<pi>/4\<close>, which is wider
  than the wedge from \<open>- 3\<pi>/4\<close> to \<open>3\<pi>/4\<close> that holds every bearing.
\<close>

theorem remapped_wedge_counterexample:
  "minmax_element (\<lambda>p q. theta p < theta q)
       [Point (- 1) (- 1), Point 1 (- 1), Point 2 0, Point 1 1, Point (- 1) 1]
     = Some (Point (- 1) (- 1), Point (- 1) 1)
   \<and> theta (Point (- 1) 1) - theta (Point (- 1) (- 1)) > pi
   \<and> minmaxp [Point (- 1) (- 1), Point 1 (- 1), Point 2 0, Point 1 1, Point (- 1) 1]
     = Some (Point 2 0, Point 1 (- 1))
   \<and> span_angles (Point 2 0) (Point 1 (- 1)) = (0, 7 * pi / 4)
   \<and> theta (Point (- 1) (- 1)) = - (3 * pi / 4) \<and> theta (Point 1 (- 1)) = - (pi / 4)
   \<and> theta (Point 2 0) = 0 \<and> theta (Point 1 1) = pi / 4 \<and> theta (Point (- 1) 1) = 3 * pi / 4
   \<and> 3 * pi / 4 - (- (3 * pi / 4)) < 7 * pi / 4 - 0"
  using pi_gt_zero
  by (simp add: minmaxp_def minmax_element_def span_angles_def adjust_def pentagon_bearings)


text \<open>
  C4, amended. In \<open>makeInvisibleArea\<close>, whenever the maximum hull-vertex bearing minus
  the minimum hull-vertex bearing exceeds \<open>\<pi>\<close>, the pair of vertices is re-selected on
  the bearings remapped into \<open>[0, 2\<pi>)\<close>: the pair has the least and the greatest remapped
  bearing, it is the pair the returned polygon starts and ends with, and the wedge used
  from the one to the other holds the bearing of every vertex. When the remapped
  bearings span at most \<open>\<pi>\<close>, no wedge that holds every bearing is narrower.
\<close>

theorem bearing_span_remapped:
  assumes naive: "minmax_element (\<lambda>p q. theta p < theta q) poly = Some (minp0, maxp0)"
      and wide: "theta maxp0 - theta minp0 > pi"
      and sel: "minmaxp poly = Some (minp, maxp)"
  shows "minmax_element (\<lambda>p q. adjust (theta p) < adjust (theta q)) poly = Some (minp, maxp)
       \<and> minp \<in> set poly \<and> maxp \<in> set poly
       \<and> (\<forall>v \<in> set poly. 0 \<le> adjust (theta v) \<and> adjust (theta v) < 2 * pi
             \<and> adjust (theta minp) \<le> adjust (theta v) \<and> adjust (theta v) \<le> adjust (theta maxp)
             \<and> in_wedge (fst (span_angles minp maxp)) (snd (span_angles minp maxp)) (theta v))
       \<and> snd (span_angles minp maxp) - fst (span_angles minp maxp)
           = adjust (theta maxp) - adjust (theta minp)
       \<and> (adjust (theta maxp) - adjust (theta minp) \<le> pi \<longrightarrow>
            (\<forall>lo hi. (\<forall>v \<in> set poly. in_wedge lo hi (theta v)) \<longrightarrow>
               snd (span_angles minp maxp) - fst (span_angles minp maxp) \<le> hi - lo))
       \<and> (\<forall>res. makeInvisibleArea b poly = Some (Inr res) \<longrightarrow> hd res = minp \<and> last res = maxp)"
proof -
  have re: "minmax_element (\<lambda>p q. adjust (theta p) < adjust (theta q)) poly = Some (minp, maxp)"
    using minmaxp_remap [OF naive wide] sel by simp
  have mem: "minp \<in> set poly" "maxp \<in> set poly" using minmaxp_mem [OF sel] by simp_all
  have key: "\<forall>v \<in> set poly. adjust (theta minp) \<le> adjust (theta v) \<and> adjust (theta v) \<le> adjust (theta maxp)"
    using minmax_element_key [where f = "\<lambda>p. adjust (theta p)", OF re] .
  have le: "adjust (theta minp) \<le> adjust (theta maxp)" using key mem(2) by blast
  have fst: "fst (span_angles minp maxp) = theta minp"
    and width: "snd (span_angles minp maxp) - fst (span_angles minp maxp)
           = adjust (theta maxp) - adjust (theta minp)"
    using span_angles_width [OF le] by simp_all
  have snd: "snd (span_angles minp maxp) = theta minp + (adjust (theta maxp) - adjust (theta minp))"
    using fst width by linarith
  have inw: "in_wedge (fst (span_angles minp maxp)) (snd (span_angles minp maxp)) (theta v)"
    if "v \<in> set poly" for v
    unfolding fst snd using key that by (intro in_wedge_adjust) auto
  have minimal: "snd (span_angles minp maxp) - fst (span_angles minp maxp) \<le> hi - lo"
    if small: "adjust (theta maxp) - adjust (theta minp) \<le> pi"
      and all: "\<forall>v \<in> set poly. in_wedge lo hi (theta v)" for lo hi
  proof -
    have a: "in_wedge lo hi (adjust (theta minp))" using all mem(1) by (intro in_wedge_adjusted) blast
    have z: "in_wedge lo hi (adjust (theta maxp))" using all mem(2) by (intro in_wedge_adjusted) blast
    show ?thesis unfolding width using wedge_width_ge [OF a z] le small by simp
  qed
  have ends: "hd res = minp \<and> last res = maxp" if "makeInvisibleArea b poly = Some (Inr res)" for res
    using makeInvisibleArea_ends [OF sel that] .
  show ?thesis
    using re mem key inw width minimal ends adjust_range by (intro conjI ballI allI impI) auto
qed


theorem bearing_span_remapped_witness:
  "minmax_element (\<lambda>p q. theta p < theta q) [Point (- 1) 1, Point (- 1) (- 1)]
     = Some (Point (- 1) (- 1), Point (- 1) 1)
   \<and> theta (Point (- 1) 1) - theta (Point (- 1) (- 1)) > pi
   \<and> minmaxp [Point (- 1) 1, Point (- 1) (- 1)] = Some (Point (- 1) 1, Point (- 1) (- 1))
   \<and> minmax_element (\<lambda>p q. adjust (theta p) < adjust (theta q)) [Point (- 1) 1, Point (- 1) (- 1)]
     = Some (Point (- 1) 1, Point (- 1) (- 1))
   \<and> snd (span_angles (Point (- 1) 1) (Point (- 1) (- 1)))
      - fst (span_angles (Point (- 1) 1) (Point (- 1) (- 1))) = pi / 2"
proof -
  let ?poly = "[Point (- 1) 1, Point (- 1) (- 1)]"
  have naive: "minmax_element (\<lambda>p q. theta p < theta q) ?poly = Some (Point (- 1) (- 1), Point (- 1) 1)"
    using pi_gt_zero by (simp add: minmax_element_def pentagon_bearings)
  have wide: "theta (Point (- 1) 1) - theta (Point (- 1) (- 1)) > pi"
    using pi_gt_zero by (simp add: pentagon_bearings)
  have sel: "minmaxp ?poly = Some (Point (- 1) 1, Point (- 1) (- 1))"
    using pi_gt_zero by (simp add: minmaxp_def minmax_element_def adjust_def pentagon_bearings)
  have d: "adjust (theta (Point (- 1) (- 1))) - adjust (theta (Point (- 1) 1)) = pi / 2"
    using pi_gt_zero by (simp add: adjust_def pentagon_bearings)
  note t = bearing_span_remapped [OF naive wide sel,
      where b = "OccupancyGridBuilder 1 2 2 100 50 :: 16 word builder"]
  from t have re: "minmax_element (\<lambda>p q. adjust (theta p) < adjust (theta q)) ?poly
      = Some (Point (- 1) 1, Point (- 1) (- 1))"
    by (rule conjunct1)
  from t have w: "snd (span_angles (Point (- 1) 1) (Point (- 1) (- 1)))
      - fst (span_angles (Point (- 1) 1) (Point (- 1) (- 1)))
      = adjust (theta (Point (- 1) (- 1))) - adjust (theta (Point (- 1) 1))"
    by blast
  show ?thesis using naive wide sel re w d by (simp only: simp_thms)
qed

subsection \<open>Visibility polygon builder: when the call returns\<close>

text \<open>
  The second corner walk always ends, since its test adds \<open>2\<pi>\<close> per wrap. The first one
  ends exactly when the minimum bearing is at most the bearing of the top left corner,
  so for a grid of positive size the call returns a polygon in that case and in no
  other.
\<close>

lemma first_corner_Some:
  assumes "minang \<le> theta (corner (i + k))"
  shows "\<exists>j. first_corner corner minang i = Some j"
  using assms
proof (induction k arbitrary: i)
  case 0
  then show ?case by (simp add: first_corner.simps)
next
  case (Suc k)
  show ?case
  proof (cases "minang \<le> theta (corner i)")
    case True
    then show ?thesis by (simp add: first_corner.simps)
  next
    case False
    have "\<exists>j. first_corner corner minang (i + 1) = Some j"
      using Suc.IH [of "i + 1"] Suc.prems by simp
    then show ?thesis using False by (subst first_corner.simps) simp
  qed
qed

lemma corner_walk_Some:
  assumes "maxang \<le> theta (corner (i + k)) + 2 * pi * real ((i + k) div 4)"
  shows "\<exists>r. corner_walk corner maxang i res = Some r"
  using assms
proof (induction k arbitrary: i res)
  case 0
  then show ?case by (simp add: corner_walk.simps)
next
  case (Suc k)
  show ?case
  proof (cases "maxang \<le> theta (corner i) + 2 * pi * real (i div 4)")
    case True
    then show ?thesis by (simp add: corner_walk.simps)
  next
    case False
    have "\<exists>r. corner_walk corner maxang (i + 1) (res @ [corner i]) = Some r"
      using Suc.IH [of "i + 1" "res @ [corner i]"] Suc.prems by simp
    then show ?thesis using False by (subst corner_walk.simps) simp
  qed
qed

lemma corner_walk_returns:
  assumes "maxang \<le> 3 * pi"
  shows "\<exists>r. corner_walk corner maxang i res = Some r"
proof -
  have "2 \<le> (i + 8) div 4" by simp
  then have "(2 :: real) \<le> real ((i + 8) div 4)" by (metis of_nat_le_iff of_nat_numeral)
  then have "2 * pi * 2 \<le> 2 * pi * real ((i + 8) div 4)"
    using pi_gt_zero by (intro mult_left_mono) simp_all
  moreover have "- pi < theta (corner (i + 8))" by (rule theta_bounds)
  ultimately have "maxang \<le> theta (corner (i + 8)) + 2 * pi * real ((i + 8) div 4)"
    using assms by linarith
  then show ?thesis by (rule corner_walk_Some)
qed

lemma span_angles_bound: "snd (span_angles minp maxp) \<le> 3 * pi"
proof -
  have "theta maxp \<le> 3 * pi" "theta maxp + 2 * pi \<le> 3 * pi"
    using theta_bounds(2) [of maxp] pi_gt_zero by linarith+
  then show ?thesis by (simp add: span_angles_def Let_def)
qed

lemma makeInvisibleArea_returns_iff:
  assumes "0 < realw b" "0 < realh b" "minmaxp poly = Some (minp, maxp)"
  shows "(\<exists>res. makeInvisibleArea b poly = Some (Inr res)) \<longleftrightarrow> theta minp \<le> theta (corners b 3)"
    and "makeInvisibleArea b poly = None \<longleftrightarrow> theta (corners b 3) < theta minp"
proof -
  obtain minang maxang where sa: "span_angles minp maxp = (minang, maxang)"
    by (cases "span_angles minp maxp")
  have minang: "minang = theta minp" using sa by (simp add: span_angles_def Let_def)
  have maxang: "maxang \<le> 3 * pi" using span_angles_bound [of minp maxp] sa by simp
  have none: "makeInvisibleArea b poly = None" if "theta (corners b 3) < theta minp"
  proof -
    have "theta (corners b i) < theta minp" for i
      using theta_corners_le [OF assms(1,2), of i] that by simp
    then have "first_corner (corners b) (theta minp) 0 = None" by (rule first_corner_None)
    then show ?thesis by (simp add: makeInvisibleArea_def assms(3) sa minang)
  qed
  have some: "\<exists>res. makeInvisibleArea b poly = Some (Inr res)" if "theta minp \<le> theta (corners b 3)"
  proof -
    have "minang \<le> theta (corners b (0 + 3))" using that minang by simp
    then obtain i where i: "first_corner (corners b) minang 0 = Some i"
      using first_corner_Some by blast
    obtain j res where w: "corner_walk (corners b) maxang i [minp, projection b minp i] = Some (j, res)"
      using corner_walk_returns [OF maxang, of "corners b" i "[minp, projection b minp i]"] by auto
    show ?thesis by (simp add: makeInvisibleArea_def assms(3) sa i w)
  qed
  show "(\<exists>res. makeInvisibleArea b poly = Some (Inr res)) \<longleftrightarrow> theta minp \<le> theta (corners b 3)"
  proof
    assume "\<exists>res. makeInvisibleArea b poly = Some (Inr res)"
    then have "makeInvisibleArea b poly \<noteq> None" by auto
    then show "theta minp \<le> theta (corners b 3)" using none by (cases "theta minp \<le> theta (corners b 3)") auto
  qed (rule some)
  show "makeInvisibleArea b poly = None \<longleftrightarrow> theta (corners b 3) < theta minp"
  proof
    assume n: "makeInvisibleArea b poly = None"
    show "theta (corners b 3) < theta minp"
    proof (rule ccontr)
      assume "\<not> theta (corners b 3) < theta minp"
      then have "theta minp \<le> theta (corners b 3)" by simp
      from some [OF this] show False using n by simp
    qed
  qed (rule none)
qed

subsection \<open>Grid compositor: what a call of add does\<close>

lemma same_frame_refl: "same_frame b b"
  by (simp add: same_frame_def)

lemma same_frame_trans: "same_frame a b \<Longrightarrow> same_frame b c \<Longrightarrow> same_frame a c"
  by (simp add: same_frame_def)

lemma same_frame_transformToPixel: "same_frame b b' \<Longrightarrow> transformToPixel b' = transformToPixel b"
  by (rule ext) (simp add: same_frame_def transformToPixel_def)

lemma same_frame_edge_cells: "same_frame b b' \<Longrightarrow> edge_cells trav b' poly = edge_cells trav b poly"
  by (simp add: edge_cells_def same_frame_transformToPixel)

lemma same_frame_row_mins: "same_frame b b' \<Longrightarrow> row_mins trav b' poly = row_mins trav b poly"
  by (simp add: row_mins_def same_frame_edge_cells) (simp add: same_frame_def)

lemma same_frame_row_maxs: "same_frame b b' \<Longrightarrow> row_maxs trav b' poly = row_maxs trav b poly"
  by (simp add: row_maxs_def same_frame_edge_cells) (simp add: same_frame_def)

lemma same_frame_contribution: "same_frame b b' \<Longrightarrow> contribution trav b' poly = contribution trav b poly"
  by (rule ext) (simp add: contribution_def same_frame_row_mins same_frame_row_maxs, simp add: same_frame_def)

lemma same_frame_in_bounds: "same_frame b b' \<Longrightarrow> in_bounds trav b' poly = in_bounds trav b poly"
  by (simp add: in_bounds_def same_frame_row_maxs) (simp add: same_frame_def)

lemma same_frame_makeOccupiedArea: "same_frame b b' \<Longrightarrow> makeOccupiedArea b' = makeOccupiedArea b"
  by (rule ext) (simp add: makeOccupiedArea_def transformToGrid_def same_frame_def)

lemma same_frame_corners: "same_frame b b' \<Longrightarrow> corners b' = corners b"
  by (rule ext) (simp add: corners_def realw_def realh_def same_frame_def)

lemma same_frame_projection: "same_frame b b' \<Longrightarrow> projection b' = projection b"
  by (rule ext, rule ext) (simp add: projection_def realw_def realh_def same_frame_def)

lemma same_frame_makeInvisibleArea:
  assumes "same_frame b b'"
  shows "makeInvisibleArea b' = makeInvisibleArea b"
  unfolding makeInvisibleArea_def same_frame_corners [OF assms] same_frame_projection [OF assms]
  by (rule refl)

lemma same_frame_invisible_area:
  assumes "same_frame b b'"
  shows "invisible_area b' = invisible_area b"
  by (rule ext)
    (simp add: invisible_area_def same_frame_makeInvisibleArea [OF assms]
       same_frame_makeOccupiedArea [OF assms])

lemma same_frame_completes:
  assumes "same_frame b b'"
  shows "completes trav b' prim = completes trav b prim"
  by (simp add: completes_def same_frame_makeInvisibleArea [OF assms]
      same_frame_makeOccupiedArea [OF assms] same_frame_invisible_area [OF assms]
      same_frame_in_bounds [OF assms])

lemma same_frame_count: "same_frame b (b\<lparr>primitive_count := c\<rparr>)"
  by (simp add: same_frame_def)

lemma well_formed_count: "well_formed b \<Longrightarrow> well_formed (b\<lparr>primitive_count := c\<rparr>)"
  by (simp add: well_formed_def)

text \<open>The members a call of \<open>addPolygon\<close> leaves alone, whatever the builder.\<close>

lemma addPolygon_scratch:
  assumes "addPolygon trav b g poly = Some (g', b')"
  shows "\<exists>m n. b' = b\<lparr>mincols := m, maxcols := n\<rparr>"
  using assms by (auto simp: addPolygon_def bind_eq_Some_conv)

lemma mark_invisible_fields:
  assumes "mark_invisible trav area b = Some b'"
  shows "primitive_count b' = primitive_count b" "grid_values b' = grid_values b"
    "occupied_grid b' = occupied_grid b" "origin b' = origin b"
proof -
  from assms obtain g' b1 where "addPolygon trav b (invisible_grid b) area = Some (g', b1)"
    and b': "b' = b1\<lparr>invisible_grid := g'\<rparr>"
    by (auto simp: mark_invisible_def)
  then obtain m n where "b1 = b\<lparr>mincols := m, maxcols := n\<rparr>"
    using addPolygon_scratch by blast
  then show "primitive_count b' = primitive_count b" "grid_values b' = grid_values b"
    "occupied_grid b' = occupied_grid b" "origin b' = origin b"
    using b' by simp_all
qed

lemma mark_occupied_fields:
  assumes "mark_occupied trav area b = Some b'"
  shows "primitive_count b' = primitive_count b" "grid_values b' = grid_values b"
    "invisible_grid b' = invisible_grid b" "origin b' = origin b"
proof -
  from assms obtain g' b1 where "addPolygon trav b (occupied_grid b) area = Some (g', b1)"
    and b': "b' = b1\<lparr>occupied_grid := g'\<rparr>"
    by (auto simp: mark_occupied_def)
  then obtain m n where "b1 = b\<lparr>mincols := m, maxcols := n\<rparr>"
    using addPolygon_scratch by blast
  then show "primitive_count b' = primitive_count b" "grid_values b' = grid_values b"
    "invisible_grid b' = invisible_grid b" "origin b' = origin b"
    using b' by simp_all
qed

text \<open>The two calls of \<open>addPolygon\<close> that \<open>add\<close> makes, on a well-formed builder.\<close>

lemma mark_invisible_eq:
  assumes "well_formed b"
  shows "mark_invisible trav area b
   = (if in_bounds trav b area
      then Some (b\<lparr>mincols := row_mins trav b area, maxcols := row_maxs trav b area,
                   invisible_grid := marked (width b) (row_mins trav b area) (row_maxs trav b area)
                                       (height b) (invisible_grid b)\<rparr>)
      else None)"
proof -
  have "length (invisible_grid b) = height b * width b" using assms by (simp add: well_formed_def)
  then show ?thesis by (simp add: mark_invisible_def addPolygon_eq [OF assms])
qed

lemma mark_occupied_eq:
  assumes "well_formed b"
  shows "mark_occupied trav area b
   = (if in_bounds trav b area
      then Some (b\<lparr>mincols := row_mins trav b area, maxcols := row_maxs trav b area,
                   occupied_grid := marked (width b) (row_mins trav b area) (row_maxs trav b area)
                                      (height b) (occupied_grid b)\<rparr>)
      else None)"
proof -
  have "length (occupied_grid b) = height b * width b" using assms by (simp add: well_formed_def)
  then show ?thesis by (simp add: mark_occupied_def addPolygon_eq [OF assms])
qed

lemma marks_eq:
  assumes "well_formed b"
  shows "Option.bind (mark_invisible trav shadow b) (mark_occupied trav area)
   = (if in_bounds trav b shadow \<and> in_bounds trav b area
      then Some (b\<lparr>mincols := row_mins trav b area, maxcols := row_maxs trav b area,
                   invisible_grid := marked (width b) (row_mins trav b shadow) (row_maxs trav b shadow)
                                       (height b) (invisible_grid b),
                   occupied_grid := marked (width b) (row_mins trav b area) (row_maxs trav b area)
                                      (height b) (occupied_grid b)\<rparr>)
      else None)"
proof (cases "in_bounds trav b shadow")
  case False
  then show ?thesis by (simp add: mark_invisible_eq [OF assms])
next
  case True
  let ?b2 = "b\<lparr>mincols := row_mins trav b shadow, maxcols := row_maxs trav b shadow,
                invisible_grid := marked (width b) (row_mins trav b shadow) (row_maxs trav b shadow)
                                    (height b) (invisible_grid b)\<rparr>"
  have f: "same_frame b ?b2" by (simp add: same_frame_def)
  have wf: "well_formed ?b2" using assms by (simp add: well_formed_def)
  have "Option.bind (mark_invisible trav shadow b) (mark_occupied trav area) = mark_occupied trav area ?b2"
    using True by (simp add: mark_invisible_eq [OF assms])
  then show ?thesis
    using True
    by (simp add: mark_occupied_eq [OF wf] same_frame_in_bounds [OF f] same_frame_row_mins [OF f]
        same_frame_row_maxs [OF f])
qed

lemma makeInvisibleArea_not_fault:
  "poly \<noteq> [] \<Longrightarrow> makeInvisibleArea b poly \<noteq> Some (Inl f)"
  using minmaxp_None [of poly]
  by (auto simp: makeInvisibleArea_def split: option.splits prod.splits)

lemma added_eq:
  assumes "well_formed b" "in_bounds trav b (invisible_area b prim)"
    "in_bounds trav b (makeOccupiedArea b prim)"
  shows "added trav prim b
   = b\<lparr>primitive_count := primitive_count b + 1,
       mincols := row_mins trav b (makeOccupiedArea b prim),
       maxcols := row_maxs trav b (makeOccupiedArea b prim),
       invisible_grid := marked (width b) (row_mins trav b (invisible_area b prim))
                           (row_maxs trav b (invisible_area b prim)) (height b) (invisible_grid b),
       occupied_grid := marked (width b) (row_mins trav b (makeOccupiedArea b prim))
                          (row_maxs trav b (makeOccupiedArea b prim)) (height b) (occupied_grid b)\<rparr>"
proof -
  let ?b1 = "b\<lparr>primitive_count := primitive_count b + 1\<rparr>"
  have f: "same_frame b ?b1" by (rule same_frame_count)
  have wf: "well_formed ?b1" using assms(1) by (rule well_formed_count)
  show ?thesis
    using assms(2,3)
    by (simp add: added_def Let_def marks_eq [OF wf] same_frame_in_bounds [OF f]
        same_frame_row_mins [OF f] same_frame_row_maxs [OF f])
qed

text \<open>
  A call of \<open>add\<close> below the capacity, for a non-empty hull: it completes exactly when
  \<open>makeInvisibleArea\<close> returns and both rasterizations stay inside their grid.
\<close>

lemma add_cases:
  assumes "well_formed b" "primitive_count b \<noteq> count_max" "prim \<noteq> []"
  shows "add count_max trav prim b
         = (if completes trav b prim then Some (None, added trav prim b) else None)"
proof -
  let ?b1 = "b\<lparr>primitive_count := primitive_count b + 1\<rparr>"
  have f: "same_frame b ?b1" by (rule same_frame_count)
  have wf: "well_formed ?b1" using assms(1) by (rule well_formed_count)
  have occ: "makeOccupiedArea ?b1 prim = makeOccupiedArea b prim"
    using same_frame_makeOccupiedArea [OF f] by simp
  have inv: "makeInvisibleArea ?b1 = makeInvisibleArea b"
    by (rule same_frame_makeInvisibleArea [OF f])
  have ne: "makeOccupiedArea b prim \<noteq> []" using assms(3) by (simp add: makeOccupiedArea_def)
  show ?thesis
  proof (cases "makeInvisibleArea b (makeOccupiedArea b prim)")
    case None
    then show ?thesis using assms(2) by (simp add: add_def Let_def occ inv completes_def)
  next
    case (Some r)
    then obtain area where r: "r = Inr area"
      using makeInvisibleArea_not_fault [OF ne, of b] by (cases r) auto
    have area: "invisible_area b prim = area" using Some r by (simp add: invisible_area_def)
    have run: "add count_max trav prim b
        = map_option (Pair None)
            (Option.bind (mark_invisible trav area ?b1) (mark_occupied trav (makeOccupiedArea b prim)))"
      using assms(2) Some r by (simp add: add_def Let_def occ inv)
    have c: "completes trav b prim
        \<longleftrightarrow> in_bounds trav ?b1 area \<and> in_bounds trav ?b1 (makeOccupiedArea b prim)"
      using Some by (simp add: completes_def area same_frame_in_bounds [OF f])
    show ?thesis
      unfolding run c
      by (simp add: added_def Let_def area marks_eq [OF wf])
  qed
qed

lemma added_fields:
  "primitive_count (added trav prim b) = primitive_count b + 1"
  "grid_values (added trav prim b) = grid_values b"
proof -
  let ?b1 = "b\<lparr>primitive_count := primitive_count b + 1\<rparr>"
  let ?run = "Option.bind (mark_invisible trav (invisible_area b prim) ?b1)
                (mark_occupied trav (makeOccupiedArea b prim))"
  have "primitive_count (added trav prim b) = primitive_count b + 1
        \<and> grid_values (added trav prim b) = grid_values b"
  proof (cases ?run)
    case None
    then show ?thesis by (simp add: added_def Let_def)
  next
    case (Some b3)
    then obtain b2 where i: "mark_invisible trav (invisible_area b prim) ?b1 = Some b2"
      and o: "mark_occupied trav (makeOccupiedArea b prim) b2 = Some b3"
      by (auto simp: bind_eq_Some_conv)
    have "added trav prim b = b3" using Some by (simp add: added_def Let_def)
    then show ?thesis
      using mark_invisible_fields(1,2) [OF i] mark_occupied_fields(1,2) [OF o] by simp
  qed
  then show "primitive_count (added trav prim b) = primitive_count b + 1"
    "grid_values (added trav prim b) = grid_values b"
    by simp_all
qed

lemma same_frame_added:
  assumes "well_formed b"
  shows "same_frame b (added trav prim b)"
proof -
  let ?b1 = "b\<lparr>primitive_count := primitive_count b + 1\<rparr>"
  have wf: "well_formed ?b1" using assms by (rule well_formed_count)
  show ?thesis
    by (simp add: added_def Let_def marks_eq [OF wf] same_frame_def)
qed

lemma well_formed_added:
  assumes "well_formed b"
  shows "well_formed (added trav prim b)"
proof -
  let ?b1 = "b\<lparr>primitive_count := primitive_count b + 1\<rparr>"
  have wf: "well_formed ?b1" using assms by (rule well_formed_count)
  show ?thesis
    using assms by (simp add: added_def Let_def marks_eq [OF wf] well_formed_def)
qed

lemma added_grids:
  assumes "well_formed b" "completes trav b prim" "k < height b * width b"
  shows "occupied_grid (added trav prim b) ! k
           = occupied_grid b ! k + contribution trav b (makeOccupiedArea b prim) k"
    and "invisible_grid (added trav prim b) ! k
           = invisible_grid b ! k + contribution trav b (invisible_area b prim) k"
proof -
  have ib: "in_bounds trav b (invisible_area b prim)" "in_bounds trav b (makeOccupiedArea b prim)"
    using assms(2) by (simp_all add: completes_def)
  have len: "length (occupied_grid b) = height b * width b"
    "length (invisible_grid b) = height b * width b"
    using assms(1) by (simp_all add: well_formed_def)
  show "occupied_grid (added trav prim b) ! k
           = occupied_grid b ! k + contribution trav b (makeOccupiedArea b prim) k"
    using marked_contribution [OF len(1), of k trav "makeOccupiedArea b prim"] assms(3) len(1)
    by (simp add: added_eq [OF assms(1) ib])
  show "invisible_grid (added trav prim b) ! k
           = invisible_grid b ! k + contribution trav b (invisible_area b prim) k"
    using marked_contribution [OF len(2), of k trav "invisible_area b prim"] assms(3) len(2)
    by (simp add: added_eq [OF assms(1) ib])
qed

subsection \<open>Grid compositor: sequences of add calls\<close>

lemma counter_below:
  fixes c :: "'n::len word"
  assumes "unat c + Suc n \<le> unat count_max"
  shows "c \<noteq> count_max" "unat (c + 1) = unat c + 1"
proof -
  show "c \<noteq> count_max" using assms by auto
  have "unat c + 1 \<le> unat count_max" using assms by simp
  also have "\<dots> < 2 ^ LENGTH('n)" by (rule unsigned_less)
  finally have "unat c + 1 < 2 ^ LENGTH('n)" .
  then show "unat (c + 1) = unat c + 1" by (simp add: unat_word_ariths)
qed

lemma add_all_effect:
  assumes "well_formed b" "unat (primitive_count b) + length ps \<le> unat count_max"
      and "\<forall>p \<in> set ps. p \<noteq> []"
  shows "add_all count_max trav ps b
         = (if \<forall>p \<in> set ps. completes trav b p then Some (None, fold (added trav) ps b)
            else None)"
  using assms
proof (induction ps arbitrary: b)
  case Nil
  then show ?case by simp
next
  case (Cons p ps)
  let ?b' = "added trav p b"
  have c: "primitive_count b \<noteq> count_max" "unat (primitive_count b + 1) = unat (primitive_count b) + 1"
    using counter_below [of "primitive_count b" "length ps" count_max] Cons.prems(2) by simp_all
  have p: "p \<noteq> []" using Cons.prems(3) by simp
  have step: "add count_max trav p b
         = (if completes trav b p then Some (None, ?b') else None)"
    by (rule add_cases [OF Cons.prems(1) c(1) p])
  have f: "same_frame b ?b'" using Cons.prems(1) by (rule same_frame_added)
  have wf: "well_formed ?b'" using Cons.prems(1) by (rule well_formed_added)
  have cnt: "unat (primitive_count ?b') + length ps \<le> unat count_max"
    using Cons.prems(2) c(2) by (simp add: added_fields)
  have IH: "add_all count_max trav ps ?b'
         = (if \<forall>q \<in> set ps. completes trav b q then Some (None, fold (added trav) ps ?b')
            else None)"
    using Cons.IH [OF wf cnt] Cons.prems(3)
    by (simp add: same_frame_completes [OF f])
  show ?case
  proof (cases "completes trav b p")
    case False
    then show ?thesis using step by simp
  next
    case True
    have "add_all count_max trav (p # ps) b = add_all count_max trav ps ?b'"
      using step True by simp
    moreover have "(\<forall>q \<in> set (p # ps). completes trav b q)
        \<longleftrightarrow> (\<forall>q \<in> set ps. completes trav b q)"
      using True by auto
    moreover have "fold (added trav) (p # ps) b = fold (added trav) ps ?b'" by simp
    ultimately show ?thesis using IH by (simp only:)
  qed
qed

lemma fold_added_frame: "well_formed b \<Longrightarrow> same_frame b (fold (added trav) ps b)"
proof (induction ps arbitrary: b)
  case Nil
  show ?case by (simp add: same_frame_refl)
next
  case (Cons p ps)
  have "same_frame (added trav p b) (fold (added trav) ps (added trav p b))"
    using Cons.prems by (intro Cons.IH well_formed_added)
  then show ?case using same_frame_trans [OF same_frame_added [OF Cons.prems]] by simp
qed

lemma fold_added_well_formed: "well_formed b \<Longrightarrow> well_formed (fold (added trav) ps b)"
  by (induction ps arbitrary: b) (simp_all add: well_formed_added)

lemma fold_added_fields:
  "primitive_count (fold (added trav) ps b) = primitive_count b + of_nat (length ps)"
  "grid_values (fold (added trav) ps b) = grid_values b"
  by (induction ps arbitrary: b) (simp_all add: added_fields)

lemma fold_added_occupied:
  assumes "well_formed b" "k < height b * width b" "\<forall>p \<in> set ps. completes trav b p"
  shows "occupied_grid (fold (added trav) ps b) ! k
           = occupied_grid b ! k + (\<Sum>p \<leftarrow> ps. contribution trav b (makeOccupiedArea b p) k)"
  using assms
proof (induction ps arbitrary: b)
  case Nil
  show ?case by simp
next
  case (Cons p ps)
  let ?b' = "added trav p b"
  have f: "same_frame b ?b'" using Cons.prems(1) by (rule same_frame_added)
  have wf: "well_formed ?b'" using Cons.prems(1) by (rule well_formed_added)
  have k: "k < height ?b' * width ?b'" using Cons.prems(2) f by (simp add: same_frame_def)
  have cp: "completes trav b p" using Cons.prems(3) by simp
  have rest: "\<forall>q \<in> set ps. completes trav ?b' q"
    using Cons.prems(3) by (simp add: same_frame_completes [OF f])
  have cong: "contribution trav ?b' poly = contribution trav b poly"
     "makeOccupiedArea ?b' = makeOccupiedArea b" for poly
    using same_frame_contribution [OF f] same_frame_makeOccupiedArea [OF f] by simp_all
  show ?case
    using Cons.IH [OF wf k rest] added_grids(1) [OF Cons.prems(1) cp Cons.prems(2)] by (simp add: cong)
qed

lemma fold_added_invisible:
  assumes "well_formed b" "k < height b * width b" "\<forall>p \<in> set ps. completes trav b p"
  shows "invisible_grid (fold (added trav) ps b) ! k
           = invisible_grid b ! k + (\<Sum>p \<leftarrow> ps. contribution trav b (invisible_area b p) k)"
  using assms
proof (induction ps arbitrary: b)
  case Nil
  show ?case by simp
next
  case (Cons p ps)
  let ?b' = "added trav p b"
  have f: "same_frame b ?b'" using Cons.prems(1) by (rule same_frame_added)
  have wf: "well_formed ?b'" using Cons.prems(1) by (rule well_formed_added)
  have k: "k < height ?b' * width ?b'" using Cons.prems(2) f by (simp add: same_frame_def)
  have cp: "completes trav b p" using Cons.prems(3) by simp
  have rest: "\<forall>q \<in> set ps. completes trav ?b' q"
    using Cons.prems(3) by (simp add: same_frame_completes [OF f])
  have cong: "contribution trav ?b' poly = contribution trav b poly"
     "invisible_area ?b' = invisible_area b" for poly
    using same_frame_contribution [OF f] same_frame_invisible_area [OF f] by simp_all
  show ?case
    using Cons.IH [OF wf k rest] added_grids(2) [OF Cons.prems(1) cp Cons.prems(2)] by (simp add: cong)
qed

lemma sum_list_permuted:
  fixes f :: "'a \<Rightarrow> int"
  assumes "mset xs = mset ys"
  shows "(\<Sum>x \<leftarrow> xs. f x) = (\<Sum>x \<leftarrow> ys. f x)"
proof -
  have "(\<Sum>x \<leftarrow> xs. f x) = sum_mset (image_mset f (mset xs))"
    by (metis mset_map sum_mset_sum_list)
  also have "\<dots> = sum_mset (image_mset f (mset ys))" using assms by simp
  also have "\<dots> = (\<Sum>x \<leftarrow> ys. f x)" by (metis mset_map sum_mset_sum_list)
  finally show ?thesis .
qed

lemma well_formed_reset: "well_formed b \<Longrightarrow> well_formed (reset pose0 b)"
  by (simp add: well_formed_def reset_def)

lemma length_build_values: "length (grid_values (build b)) = length (grid_values b)"
  by (simp add: build_def Let_def length_assign_cells)

lemma build_values_cong:
  assumes "well_formed s" "well_formed t" "same_frame s t"
      and "occupied_grid t = occupied_grid s" "invisible_grid t = invisible_grid s"
  shows "grid_values (build t) = grid_values (build s)"
proof (rule nth_equalityI)
  show "length (grid_values (build t)) = length (grid_values (build s))"
    using assms(1,2,3) by (simp add: length_build_values well_formed_def same_frame_def)
next
  fix i assume "i < length (grid_values (build t))"
  then have i: "i < height t * width t" "i < height s * width s"
    using assms(2,3) by (simp_all add: length_build_values well_formed_def same_frame_def)
  show "grid_values (build t) ! i = grid_values (build s) ! i"
    using build_cell [OF assms(1) i(2)] build_cell [OF assms(2) i(1)] assms(3,4,5)
    by (simp add: same_frame_def)
qed

lemma fold_added_permuted:
  assumes "mset ps = mset qs" "well_formed b" "\<forall>p \<in> set ps. completes trav b p"
  shows "grid_values (build (fold (added trav) ps b)) = grid_values (build (fold (added trav) qs b))"
proof -
  let ?s = "fold (added trav) ps b" and ?t = "fold (added trav) qs b"
  have wf: "well_formed ?s" "well_formed ?t" using assms(2) by (simp_all add: fold_added_well_formed)
  have fs: "same_frame b ?s" and ft: "same_frame b ?t"
    using assms(2) by (rule fold_added_frame)+
  have cq: "\<forall>p \<in> set qs. completes trav b p"
    using assms(1,3) mset_eq_setD by blast
  have f: "same_frame ?s ?t" using fs ft by (simp add: same_frame_def)
  have len: "length (occupied_grid ?s) = height b * width b" "length (occupied_grid ?t) = height b * width b"
            "length (invisible_grid ?s) = height b * width b" "length (invisible_grid ?t) = height b * width b"
    using wf fs ft by (simp_all add: well_formed_def same_frame_def)
  have occ: "occupied_grid ?t = occupied_grid ?s"
  proof (rule nth_equalityI)
    show "length (occupied_grid ?t) = length (occupied_grid ?s)" using len by simp
    fix k assume "k < length (occupied_grid ?t)"
    then have k: "k < height b * width b" using len by simp
    show "occupied_grid ?t ! k = occupied_grid ?s ! k"
      unfolding fold_added_occupied [OF assms(2) k assms(3)] fold_added_occupied [OF assms(2) k cq]
      using sum_list_permuted [OF assms(1), of "\<lambda>p. contribution trav b (makeOccupiedArea b p) k"]
      by simp
  qed
  have inv: "invisible_grid ?t = invisible_grid ?s"
  proof (rule nth_equalityI)
    show "length (invisible_grid ?t) = length (invisible_grid ?s)" using len by simp
    fix k assume "k < length (invisible_grid ?t)"
    then have k: "k < height b * width b" using len by simp
    show "invisible_grid ?t ! k = invisible_grid ?s ! k"
      unfolding fold_added_invisible [OF assms(2) k assms(3)] fold_added_invisible [OF assms(2) k cq]
      using sum_list_permuted [OF assms(1), of "\<lambda>p. contribution trav b (invisible_area b p) k"]
      by simp
  qed
  show ?thesis using build_values_cong [OF wf f occ inv] by simp
qed

text \<open>
  C8. For every fixed reset origin and every finite sequence of primitives with
  non-empty hulls that does not overflow the counter, the \<open>add\<close> calls issued in any
  permuted order have the same outcome: either some call does not complete, in both
  orders, or all calls return and the values array after \<open>build\<close> is identical.
  Each call adds its own contribution to each difference array, independently of the
  calls before it.
\<close>

theorem add_order_independent:
  assumes "mset ps = mset qs" "well_formed b" "length ps \<le> unat count_max"
      and "\<forall>p \<in> set ps. p \<noteq> []"
  shows "map_option (\<lambda>r. (fst r, grid_values (build (snd r))))
           (add_all count_max trav ps (reset pose0 b))
       = map_option (\<lambda>r. (fst r, grid_values (build (snd r))))
           (add_all count_max trav qs (reset pose0 b))"
proof -
  let ?b = "reset pose0 b"
  have wf: "well_formed ?b" using assms(2) by (rule well_formed_reset)
  have set: "set qs = set ps" and len: "length qs = length ps"
    using assms(1) by (auto dest: mset_eq_setD mset_eq_length)
  have cp: "unat (primitive_count ?b) + length ps \<le> unat count_max"
    using assms(3) by (simp add: reset_def)
  have cq: "unat (primitive_count ?b) + length qs \<le> unat count_max"
    using cp len by simp
  have nq: "\<forall>p \<in> set qs. p \<noteq> []" using assms(4) set by simp
  show ?thesis
  proof (cases "\<forall>p \<in> set ps. completes trav ?b p")
    case True
    show ?thesis
      unfolding add_all_effect [OF wf cp assms(4)] add_all_effect [OF wf cq nq] set
      using fold_added_permuted [OF assms(1) wf True] by simp
  next
    case False
    then show ?thesis
      unfolding add_all_effect [OF wf cp assms(4)] add_all_effect [OF wf cq nq] set
      by (simp only: if_False)
  qed
qed

subsection \<open>Grid compositor: the capacity error\<close>

lemma add_returns_count:
  assumes "add count_max trav prim b = Some (None, b')"
  shows "primitive_count b' = primitive_count b + 1"
proof -
  let ?b1 = "b\<lparr>primitive_count := primitive_count b + 1\<rparr>"
  from assms obtain area b2 where "mark_invisible trav area ?b1 = Some b2"
    and "mark_occupied trav (makeOccupiedArea ?b1 prim) b2 = Some b'"
    by (auto simp: add_def Let_def bind_eq_Some_conv split: if_splits option.splits sum.splits)
  then show ?thesis
    using mark_invisible_fields(1) [of trav area ?b1 b2]
      mark_occupied_fields(1) [of trav "makeOccupiedArea ?b1 prim" b2 b'] by simp
qed

lemma add_all_returns_count:
  assumes "add_all count_max trav ps b = Some (None, b')"
  shows "primitive_count b' = primitive_count b + of_nat (length ps)"
  using assms
proof (induction ps arbitrary: b)
  case Nil
  then show ?case by simp
next
  case (Cons p ps)
  from Cons.prems obtain b'' where a: "add count_max trav p b = Some (None, b'')"
    and r: "add_all count_max trav ps b'' = Some (None, b')"
    by (auto split: option.splits prod.splits)
  show ?case using Cons.IH [OF r] add_returns_count [OF a] by simp
qed

text \<open>
  C3, amended. If \<open>count_max\<close> calls of \<open>add\<close> have returned since the reset, the next
  call fails at once with the capacity error, and it leaves the pose, both accumulator
  arrays, the values array and the scratch buffers as they were. The counter is the one
  member it writes: the test \<^verbatim>\<open>primitive_count_++ == count_max\<close> increments it before
  the exception is thrown.
\<close>

theorem add_capacity_error:
  assumes "add_all count_max trav ps (reset pose0 b) = Some (None, b1)"
      and "length ps = unat count_max"
  shows "add count_max trav prim b1
         = Some (Some CapacityError, b1\<lparr>primitive_count := count_max + 1\<rparr>)"
proof -
  have "primitive_count b1 = of_nat (length ps)"
    using add_all_returns_count [OF assms(1)] by (simp add: reset_def)
  then have "primitive_count b1 = count_max" using assms(2) by simp
  then show ?thesis by (simp add: add_def Let_def)
qed

lemma example_shadow:
  "makeInvisibleArea
     (reset \<lparr>position = \<lparr>p_x = 0, p_y = 0, p_z = 0\<rparr>, orientation = \<lparr>q_x = 0, q_y = 0, q_z = 0, q_w = 1\<rparr>\<rparr>
        (OccupancyGridBuilder 1 2 2 100 50 :: 1 word builder))
     (makeOccupiedArea
        (reset \<lparr>position = \<lparr>p_x = 0, p_y = 0, p_z = 0\<rparr>, orientation = \<lparr>q_x = 0, q_y = 0, q_z = 0, q_w = 1\<rparr>\<rparr>
           (OccupancyGridBuilder 1 2 2 100 50 :: 1 word builder))
        [Point (1 / 2) 0])
   = Some (Inr [Point (1 / 2) 0, Point 1 0, Point 1 0, Point (1 / 2) 0])"
  by (simp add: makeInvisibleArea_def span_angles_def minmaxp_def minmax_element_def first_corner.simps
      corner_walk.simps corners_def projection_def realw_def realh_def OccupancyGridBuilder_def
      reset_def makeOccupiedArea_def transformToGrid_def quat_times_vec_def conjugate_def
      cross_def vec_def vec_minus_def theta_def Point_def atan2_def arctan_minus arctan_one not_le)

theorem add_capacity_error_witness:
  "add_all 1 (\<lambda>x0 y0 x1 y1. [(1, 1)]) [[Point (1 / 2) 0]]
     (reset \<lparr>position = \<lparr>p_x = 0, p_y = 0, p_z = 0\<rparr>, orientation = \<lparr>q_x = 0, q_y = 0, q_z = 0, q_w = 1\<rparr>\<rparr>
        (OccupancyGridBuilder 1 2 2 100 50 :: 1 word builder))
   = Some (None, added (\<lambda>x0 y0 x1 y1. [(1, 1)]) [Point (1 / 2) 0]
       (reset \<lparr>position = \<lparr>p_x = 0, p_y = 0, p_z = 0\<rparr>, orientation = \<lparr>q_x = 0, q_y = 0, q_z = 0, q_w = 1\<rparr>\<rparr>
          (OccupancyGridBuilder 1 2 2 100 50 :: 1 word builder)))
   \<and> add 1 (\<lambda>x0 y0 x1 y1. [(1, 1)]) [Point 0 (1 / 2)]
       (added (\<lambda>x0 y0 x1 y1. [(1, 1)]) [Point (1 / 2) 0]
         (reset \<lparr>position = \<lparr>p_x = 0, p_y = 0, p_z = 0\<rparr>, orientation = \<lparr>q_x = 0, q_y = 0, q_z = 0, q_w = 1\<rparr>\<rparr>
            (OccupancyGridBuilder 1 2 2 100 50 :: 1 word builder)))
     = Some (Some CapacityError,
         (added (\<lambda>x0 y0 x1 y1. [(1, 1)]) [Point (1 / 2) 0]
           (reset \<lparr>position = \<lparr>p_x = 0, p_y = 0, p_z = 0\<rparr>, orientation = \<lparr>q_x = 0, q_y = 0, q_z = 0, q_w = 1\<rparr>\<rparr>
              (OccupancyGridBuilder 1 2 2 100 50 :: 1 word builder)))\<lparr>primitive_count := 0\<rparr>)"
proof -
  let ?I = "\<lparr>position = \<lparr>p_x = 0, p_y = 0, p_z = 0\<rparr>, orientation = \<lparr>q_x = 0, q_y = 0, q_z = 0, q_w = 1\<rparr>\<rparr>"
  let ?B = "OccupancyGridBuilder 1 2 2 100 50 :: 1 word builder"
  let ?T = "\<lambda>(x0::real) (y0::real) (x1::real) (y1::real). [(1::int, 1::int)]"
  let ?P = "[Point (1 / 2) 0]"
  have wf: "well_formed (reset ?I ?B)"
    by (simp add: well_formed_def reset_def OccupancyGridBuilder_def)
  have cnt: "unat (primitive_count (reset ?I ?B)) + length [?P] \<le> unat (1 :: 1 word)"
    by (simp add: reset_def)
  have ne: "\<forall>p \<in> set [?P]. p \<noteq> []" by simp
  have len2: "length (maxcols (reset ?I ?B)) = height (reset ?I ?B)"
    by (simp add: reset_def OccupancyGridBuilder_def)
  have inside: "in_bounds ?T (reset ?I ?B) poly" for poly
    by (rule in_bounds_small [OF len2]) (auto simp: edge_cells_def)
  have "completes ?T (reset ?I ?B) ?P"
    using example_shadow by (simp add: completes_def inside)
  then have run: "add_all 1 ?T [?P] (reset ?I ?B) = Some (None, added ?T ?P (reset ?I ?B))"
    unfolding add_all_effect [OF wf cnt ne] by simp
  have len: "length [?P] = unat (1 :: 1 word)" by simp
  show ?thesis
    using run add_capacity_error [OF run len, of "[Point 0 (1 / 2)]"] by simp
qed

text \<open>
  The claim as stated fails on the counter. With a counter of one bit, whose largest
  value is 1: after one call of \<open>add\<close> the counter is 1; the second call fails, and
  leaves the counter at 0.
\<close>

theorem add_modifies_counter_counterexample:
  "primitive_count (added (\<lambda>x0 y0 x1 y1. [(1, 1)]) [Point (1 / 2) 0]
       (reset \<lparr>position = \<lparr>p_x = 0, p_y = 0, p_z = 0\<rparr>, orientation = \<lparr>q_x = 0, q_y = 0, q_z = 0, q_w = 1\<rparr>\<rparr>
          (OccupancyGridBuilder 1 2 2 100 50 :: 1 word builder))) = 1
   \<and> map_option (primitive_count \<circ> snd)
       (add 1 (\<lambda>x0 y0 x1 y1. [(1, 1)]) [Point 0 (1 / 2)]
         (added (\<lambda>x0 y0 x1 y1. [(1, 1)]) [Point (1 / 2) 0]
           (reset \<lparr>position = \<lparr>p_x = 0, p_y = 0, p_z = 0\<rparr>, orientation = \<lparr>q_x = 0, q_y = 0, q_z = 0, q_w = 1\<rparr>\<rparr>
              (OccupancyGridBuilder 1 2 2 100 50 :: 1 word builder)))) = Some 0"
  by (simp add: add_def Let_def added_fields reset_def)

subsection \<open>Grid compositor: a cycle on a grid of 2 by 2 cells\<close>

text \<open>
  Two point obstacles, half a metre ahead of the sensor and half a metre to its left,
  added in either order to a grid of 2 by 2 cells of 1 m, with a traversal that yields
  the cell of the start of each segment. Both shadows and both obstacles fall in the
  last cell, which \<open>build\<close> marks as occupied.
\<close>

abbreviation example_pose :: pose where
  "example_pose \<equiv> \<lparr>position = \<lparr>p_x = 0, p_y = 0, p_z = 0\<rparr>, orientation = \<lparr>q_x = 0, q_y = 0, q_z = 0, q_w = 1\<rparr>\<rparr>"
abbreviation example_builder :: "16 word builder" where
  "example_builder \<equiv> reset example_pose (OccupancyGridBuilder 1 2 2 100 50 :: 16 word builder)"
abbreviation start_cell :: traversal where
  "start_cell \<equiv> (\<lambda>(x0::real) (y0::real) (x1::real) (y1::real). [(\<lfloor>x0\<rfloor>, \<lfloor>y0\<rfloor>)])"

lemma example_frame:
  assumes "same_frame example_builder b"
  shows "resolution b = 1" "height b = 2" "width b = 2" "occupied_cost b = 100" "invisible_cost b = 50"
    "origin b = example_pose" "length (mincols b) = 2" "length (maxcols b) = 2"
  using assms by (simp_all add: same_frame_def reset_def OccupancyGridBuilder_def)

lemma example_occupied: "same_frame example_builder b \<Longrightarrow> makeOccupiedArea b [Point x y] = [Point x y]"
  by (simp add: example_frame makeOccupiedArea_def transformToGrid_def quat_times_vec_def conjugate_def
      cross_def vec_def vec_minus_def Point_def Let_def)

lemma pi_wide: "- (3 * pi / 2) < pi"
  using pi_gt_zero by linarith

lemma example_shadow_x: "same_frame example_builder b \<Longrightarrow> makeInvisibleArea b [Point (1 / 2) 0]
   = Some (Inr [Point (1 / 2) 0, Point 1 0, Point 1 0, Point (1 / 2) 0])"
  using pi_gt_zero
  by (simp add: example_frame makeInvisibleArea_def span_angles_def minmaxp_def minmax_element_def
      first_corner.simps corner_walk.simps corners_def projection_def realw_def realh_def
      theta_def Point_def atan2_def arctan_minus arctan_one not_le Let_def)

lemma example_shadow_y: "same_frame example_builder b \<Longrightarrow> makeInvisibleArea b [Point 0 (1 / 2)]
   = Some (Inr [Point 0 (1 / 2), Point 0 1, Point 0 1, Point 0 (1 / 2)])"
  using pi_gt_zero pi_wide
  by (simp add: example_frame makeInvisibleArea_def span_angles_def minmaxp_def minmax_element_def
      first_corner.simps corner_walk.simps corners_def projection_def realw_def realh_def
      theta_def Point_def atan2_def arctan_minus arctan_one not_le Let_def)

lemma example_cells:
  assumes "same_frame example_builder b"
  shows "edge_cells start_cell b [Point (1 / 2) 0, Point 1 0, Point 1 0, Point (1 / 2) 0] = [(1, 1), (2, 1), (2, 1), (1, 1)]"
    and "edge_cells start_cell b [Point 0 (1 / 2), Point 0 1, Point 0 1, Point 0 (1 / 2)] = [(1, 1), (1, 2), (1, 2), (1, 1)]"
    and "edge_cells start_cell b [Point (1 / 2) 0] = [(1, 1)]"
    and "edge_cells start_cell b [Point 0 (1 / 2)] = [(1, 1)]"
  by (simp_all add: example_frame [OF assms] edge_cells_def transformToPixel_def Point_def upt_rec)

lemma example_marks:
  assumes "same_frame example_builder b" "length g = 4"
  shows "map_option fst (addPolygon start_cell b g [Point (1 / 2) 0, Point 1 0, Point 1 0, Point (1 / 2) 0])
         = Some (g[3 := g ! 3 + 1])"
    and "map_option fst (addPolygon start_cell b g [Point 0 (1 / 2), Point 0 1, Point 0 1, Point 0 (1 / 2)])
         = Some (g[3 := g ! 3 + 1])"
    and "map_option fst (addPolygon start_cell b g [Point (1 / 2) 0]) = Some (g[3 := g ! 3 + 1])"
    and "map_option fst (addPolygon start_cell b g [Point 0 (1 / 2)]) = Some (g[3 := g ! 3 + 1])"
  using assms(2)
  by (simp_all add: addPolygon_def scan_edges_def example_cells [OF assms(1)] example_frame [OF assms(1)]
      record_cell_def mark_rows_def mark_row_def open_span_def close_span_def int32_t_def int32_def
      upt_rec)

lemma example_inside:
  assumes "same_frame example_builder b"
  shows "in_bounds start_cell b [Point (1 / 2) 0, Point 1 0, Point 1 0, Point (1 / 2) 0]"
    and "in_bounds start_cell b [Point 0 (1 / 2), Point 0 1, Point 0 1, Point 0 (1 / 2)]"
    and "in_bounds start_cell b [Point (1 / 2) 0]"
    and "in_bounds start_cell b [Point 0 (1 / 2)]"
proof -
  have len: "length (maxcols b) = height b" by (simp add: example_frame [OF assms])
  show "in_bounds start_cell b [Point (1 / 2) 0, Point 1 0, Point 1 0, Point (1 / 2) 0]"
    "in_bounds start_cell b [Point 0 (1 / 2), Point 0 1, Point 0 1, Point 0 (1 / 2)]"
    "in_bounds start_cell b [Point (1 / 2) 0]"
    "in_bounds start_cell b [Point 0 (1 / 2)]"
    by (rule in_bounds_small [OF len], simp add: example_cells [OF assms])+
qed

lemma example_marked:
  assumes "same_frame example_builder b" "well_formed b" "length g = 4"
      and "poly = [Point (1 / 2) 0, Point 1 0, Point 1 0, Point (1 / 2) 0]
           \<or> poly = [Point 0 (1 / 2), Point 0 1, Point 0 1, Point 0 (1 / 2)]
           \<or> poly = [Point (1 / 2) 0] \<or> poly = [Point 0 (1 / 2)]"
  shows "marked (width b) (row_mins start_cell b poly) (row_maxs start_cell b poly) (height b) g
         = g[3 := g ! 3 + 1]"
proof -
  have len: "length g = height b * width b"
    using assms(3) by (simp add: example_frame [OF assms(1)])
  have ib: "in_bounds start_cell b poly"
    using assms(4) example_inside [OF assms(1)] by auto
  have "map_option fst (addPolygon start_cell b g poly) = Some (g[3 := g ! 3 + 1])"
    using assms(4) example_marks [OF assms(1,3)] by auto
  then show ?thesis
    unfolding addPolygon_eq [OF assms(2) len] using ib by simp
qed

lemma example_areas:
  assumes "same_frame example_builder b"
  shows "invisible_area b [Point (1 / 2) 0] = [Point (1 / 2) 0, Point 1 0, Point 1 0, Point (1 / 2) 0]"
    and "invisible_area b [Point 0 (1 / 2)] = [Point 0 (1 / 2), Point 0 1, Point 0 1, Point 0 (1 / 2)]"
  by (simp_all add: invisible_area_def example_occupied [OF assms] example_shadow_x [OF assms]
      example_shadow_y [OF assms])

lemma example_completes:
  assumes "same_frame example_builder b"
  shows "completes start_cell b [Point (1 / 2) 0]" "completes start_cell b [Point 0 (1 / 2)]"
  by (simp_all add: completes_def example_areas [OF assms] example_occupied [OF assms]
      example_shadow_x [OF assms] example_shadow_y [OF assms] example_inside [OF assms])

lemma example_added:
  assumes "same_frame example_builder b" "well_formed b"
  shows "occupied_grid (added start_cell [Point (1 / 2) 0] b) = (occupied_grid b)[3 := occupied_grid b ! 3 + 1]"
    and "invisible_grid (added start_cell [Point (1 / 2) 0] b) = (invisible_grid b)[3 := invisible_grid b ! 3 + 1]"
    and "occupied_grid (added start_cell [Point 0 (1 / 2)] b) = (occupied_grid b)[3 := occupied_grid b ! 3 + 1]"
    and "invisible_grid (added start_cell [Point 0 (1 / 2)] b) = (invisible_grid b)[3 := invisible_grid b ! 3 + 1]"
proof -
  have len: "length (occupied_grid b) = 4" "length (invisible_grid b) = 4"
    using assms(2) by (simp_all add: well_formed_def example_frame [OF assms(1)])
  have ib: "in_bounds start_cell b (invisible_area b [Point (1 / 2) 0])"
    "in_bounds start_cell b (makeOccupiedArea b [Point (1 / 2) 0])"
    "in_bounds start_cell b (invisible_area b [Point 0 (1 / 2)])"
    "in_bounds start_cell b (makeOccupiedArea b [Point 0 (1 / 2)])"
    using example_completes [OF assms(1)] by (simp_all add: completes_def)
  show "occupied_grid (added start_cell [Point (1 / 2) 0] b) = (occupied_grid b)[3 := occupied_grid b ! 3 + 1]"
    "invisible_grid (added start_cell [Point (1 / 2) 0] b) = (invisible_grid b)[3 := invisible_grid b ! 3 + 1]"
    unfolding added_eq [OF assms(2) ib(1,2)]
    by (simp_all add: example_areas [OF assms(1)] example_occupied [OF assms(1)]
        example_marked [OF assms len(1)] example_marked [OF assms len(2)])
  show "occupied_grid (added start_cell [Point 0 (1 / 2)] b) = (occupied_grid b)[3 := occupied_grid b ! 3 + 1]"
    "invisible_grid (added start_cell [Point 0 (1 / 2)] b) = (invisible_grid b)[3 := invisible_grid b ! 3 + 1]"
    unfolding added_eq [OF assms(2) ib(3,4)]
    by (simp_all add: example_areas [OF assms(1)] example_occupied [OF assms(1)]
        example_marked [OF assms len(1)] example_marked [OF assms len(2)])
qed

lemma example_grids:
  "occupied_grid example_builder = [0, 0, 0, 0]" "invisible_grid example_builder = [0, 0, 0, 0]" "grid_values example_builder = [0, 0, 0, 0]"
  "primitive_count example_builder = 0" "well_formed example_builder"
  by (simp_all add: reset_def OccupancyGridBuilder_def well_formed_def numeral_eq_Suc)

lemma example_run:
  assumes "ps = [[Point (1 / 2) 0], [Point 0 (1 / 2)]] \<or> ps = [[Point 0 (1 / 2)], [Point (1 / 2) 0]]"
  shows "map_option (\<lambda>r. (fst r, grid_values (build (snd r)))) (add_all 65535 start_cell ps example_builder)
         = Some (None, [0, 0, 0, 100])"
proof -
  let ?s = "fold (added start_cell) ps example_builder"
  have ne: "\<forall>p \<in> set ps. p \<noteq> []" using assms by auto
  have cnt: "unat (primitive_count example_builder) + length ps \<le> unat (65535 :: 16 word)"
    using assms by (auto simp: example_grids)
  have ret: "\<forall>p \<in> set ps. completes start_cell example_builder p"
    using assms example_completes [OF same_frame_refl] by auto
  have run: "add_all 65535 start_cell ps example_builder = Some (None, ?s)"
    unfolding add_all_effect [OF example_grids(5) cnt ne] using ret by simp
  have f: "same_frame example_builder ?s" using example_grids(5) by (rule fold_added_frame)
  have f1: "same_frame example_builder (added start_cell p example_builder)" for p
    using example_grids(5) by (rule same_frame_added)
  have w1: "well_formed (added start_cell p example_builder)" for p
    using example_grids(5) by (rule well_formed_added)
  have grids: "occupied_grid ?s = [0, 0, 0, 2]" "invisible_grid ?s = [0, 0, 0, 2]"
    using assms
    by (auto simp: example_added [OF f1 w1] example_added [OF same_frame_refl example_grids(5)] example_grids)
  have vals: "grid_values ?s = [0, 0, 0, 0]" by (simp add: fold_added_fields example_grids)
  have "grid_values (build ?s) = [0, 0, 0, 100]"
    by (simp add: build_def Let_def example_frame [OF f] grids vals prefix_rows_def prefix_row_def
        accumulate_def upt_rec)
  then show ?thesis using run by simp
qed

theorem add_order_independent_witness:
  "mset [[Point (1 / 2) 0], [Point 0 (1 / 2)]] = mset [[Point 0 (1 / 2)], [Point (1 / 2) 0]]
   \<and> well_formed (OccupancyGridBuilder 1 2 2 100 50 :: 16 word builder)
   \<and> map_option (\<lambda>r. (fst r, grid_values (build (snd r))))
        (add_all 65535 start_cell [[Point (1 / 2) 0], [Point 0 (1 / 2)]] example_builder)
     = Some (None, [0, 0, 0, 100])
   \<and> map_option (\<lambda>r. (fst r, grid_values (build (snd r))))
        (add_all 65535 start_cell [[Point 0 (1 / 2)], [Point (1 / 2) 0]] example_builder)
     = Some (None, [0, 0, 0, 100])"
proof -
  let ?B = "OccupancyGridBuilder 1 2 2 100 50 :: 16 word builder"
  have m: "mset [[Point (1 / 2) 0], [Point 0 (1 / 2)]] = mset [[Point 0 (1 / 2)], [Point (1 / 2) 0]]"
    by (simp add: add_mset_commute)
  have wf: "well_formed ?B" by (simp add: well_formed_def OccupancyGridBuilder_def)
  have len: "length [[Point (1 / 2) 0], [Point 0 (1 / 2)]] \<le> unat (65535 :: 16 word)" by simp
  have ne: "\<forall>p \<in> set [[Point (1 / 2) 0], [Point 0 (1 / 2)]]. p \<noteq> []" by simp
  have run: "map_option (\<lambda>r. (fst r, grid_values (build (snd r))))
        (add_all 65535 start_cell [[Point (1 / 2) 0], [Point 0 (1 / 2)]] example_builder)
     = Some (None, [0, 0, 0, 100])"
    by (rule example_run) simp
  show ?thesis
    using m wf run add_order_independent [OF m wf len ne, of start_cell example_pose]
    by (simp only: simp_thms)
qed

text \<open>
  The obstacle behind the sensor, given to \<open>add\<close> with the sensor at the origin of the
  world frame and not rotated: \<open>makeInvisibleArea\<close> does not return for its occupied
  area, and so the call of \<open>add\<close> does not return.
\<close>

lemma add_no_return:
  "makeInvisibleArea (reset example_pose (OccupancyGridBuilder 1 10 10 100 50 :: 16 word builder))
     (makeOccupiedArea (reset example_pose (OccupancyGridBuilder 1 10 10 100 50 :: 16 word builder))
        [Point (- 3) (1 / 2), Point (- 2) (1 / 2), Point (- 2) 1, Point (- 3) 1]) = None
   \<and> add 65535 trav [Point (- 3) (1 / 2), Point (- 2) (1 / 2), Point (- 2) 1, Point (- 3) 1]
       (reset example_pose (OccupancyGridBuilder 1 10 10 100 50 :: 16 word builder)) = None"
proof -
  let ?B = "OccupancyGridBuilder 1 10 10 100 50 :: 16 word builder"
  let ?prim = "[Point (- 3) (1 / 2), Point (- 2) (1 / 2), Point (- 2) 1, Point (- 3) 1]"
  have f: "same_frame ?B (reset example_pose ?B)"
    by (simp add: same_frame_def reset_def OccupancyGridBuilder_def)
  have occ: "makeOccupiedArea (reset example_pose ?B) ?prim = ?prim"
    by (simp add: makeOccupiedArea_def transformToGrid_def quat_times_vec_def conjugate_def
        cross_def vec_def vec_minus_def Point_def Let_def reset_def)
  have inv: "makeInvisibleArea (reset example_pose ?B) (makeOccupiedArea (reset example_pose ?B) ?prim)
             = None"
    using box_behind_sensor_no_return
    unfolding occ same_frame_makeInvisibleArea [OF f] .
  have cnt: "primitive_count (reset example_pose ?B) \<noteq> 65535"
    by (simp add: reset_def)
  have ne: "?prim \<noteq> []" by simp
  have wf: "well_formed (reset example_pose ?B)"
    by (simp add: well_formed_def reset_def OccupancyGridBuilder_def)
  have "\<not> completes trav (reset example_pose ?B) ?prim"
    using inv by (simp add: completes_def)
  then show ?thesis
    unfolding add_cases [OF wf cnt ne] using inv by simp
qed

end
